theory Spec2Isabelle
  imports Main "HOL-Library.Word" "HOL-Library.AList" "HOL-Library.Multiset"
begin

unbundle bit_operations_syntax

section \<open>Bytes and hexadecimal rendering\<close>

type_synonym byte = "8 word"

text \<open>
  Lowercase hexadecimal digits, as produced by \<^verbatim>\<open>digest('hex')\<close> of Node's crypto module
  and by \<^verbatim>\<open>BigInt.prototype.toString(16)\<close>. The digit is asked for values below 16 only.
\<close>

definition hexDigit :: "nat \<Rightarrow> char" where
  "hexDigit n = ''0123456789abcdef'' ! n"

definition hexByte :: "byte \<Rightarrow> string" where
  "hexByte b = [hexDigit (unat b div 16), hexDigit (unat b mod 16)]"

definition isLowerHex :: "char \<Rightarrow> bool" where
  "isLowerHex c = (c \<in> set ''0123456789abcdef'')"

text \<open>\<^verbatim>\<open>n.toString(16)\<close> of a non-negative integer: no leading zeros, \<^verbatim>\<open>"0"\<close> for zero.\<close>

fun toString16 :: "nat \<Rightarrow> string" where
  "toString16 n = (if n < 16 then [hexDigit n] else toString16 (n div 16) @ [hexDigit (n mod 16)])"

declare toString16.simps [simp del]

text \<open>\<^verbatim>\<open>s.padStart(w, '0')\<close>: strings already \<open>w\<close> long or longer are returned as they are.\<close>

definition padStart :: "nat \<Rightarrow> char \<Rightarrow> string \<Rightarrow> string" where
  "padStart w c s = replicate (w - length s) c @ s"


section \<open>MD5, the digest of the scanner (testHighPerformance.js)\<close>

text \<open>
  The scanner hashes with \<^verbatim>\<open>crypto.createHash('md5')\<close>, \<^verbatim>\<open>hash.update(data)\<close> for every chunk
  read and \<^verbatim>\<open>hash.digest('hex')\<close>. The digest of Node's crypto module is that of RFC 1321 over
  the concatenation of the chunks, rendered as 32 lowercase hexadecimal characters.
\<close>

definition md5_s :: "nat list" where
  "md5_s = [7, 12, 17, 22, 7, 12, 17, 22, 7, 12, 17, 22, 7, 12, 17, 22,
            5, 9, 14, 20, 5, 9, 14, 20, 5, 9, 14, 20, 5, 9, 14, 20,
            4, 11, 16, 23, 4, 11, 16, 23, 4, 11, 16, 23, 4, 11, 16, 23,
            6, 10, 15, 21, 6, 10, 15, 21, 6, 10, 15, 21, 6, 10, 15, 21]"

definition md5_K :: "32 word list" where
  "md5_K = [0xd76aa478, 0xe8c7b756, 0x242070db, 0xc1bdceee,
            0xf57c0faf, 0x4787c62a, 0xa8304613, 0xfd469501,
            0x698098d8, 0x8b44f7af, 0xffff5bb1, 0x895cd7be,
            0x6b901122, 0xfd987193, 0xa679438e, 0x49b40821,
            0xf61e2562, 0xc040b340, 0x265e5a51, 0xe9b6c7aa,
            0xd62f105d, 0x02441453, 0xd8a1e681, 0xe7d3fbc8,
            0x21e1cde6, 0xc33707d6, 0xf4d50d87, 0x455a14ed,
            0xa9e3e905, 0xfcefa3f8, 0x676f02d9, 0x8d2a4c8a,
            0xfffa3942, 0x8771f681, 0x6d9d6122, 0xfde5380c,
            0xa4beea44, 0x4bdecfa9, 0xf6bb4b60, 0xbebfbc70,
            0x289b7ec6, 0xeaa127fa, 0xd4ef3085, 0x04881d05,
            0xd9d4d039, 0xe6db99e5, 0x1fa27cf8, 0xc4ac5665,
            0xf4292244, 0x432aff97, 0xab9423a7, 0xfc93a039,
            0x655b59c3, 0x8f0ccc92, 0xffeff47d, 0x85845dd1,
            0x6fa87e4f, 0xfe2ce6e0, 0xa3014314, 0x4e0811a1,
            0xf7537e82, 0xbd3af235, 0x2ad7d2bb, 0xeb86d391]"

type_synonym md5_state = "32 word \<times> 32 word \<times> 32 word \<times> 32 word"

definition md5_init :: md5_state where
  "md5_init = (0x67452301, 0xefcdab89, 0x98badcfe, 0x10325476)"

fun md5_step :: "32 word list \<Rightarrow> md5_state \<Rightarrow> nat \<Rightarrow> md5_state" where
  "md5_step M (A, B, C, D) i =
     (let F = (if i < 16 then (B AND C) OR (NOT B AND D)
               else if i < 32 then (D AND B) OR (NOT D AND C)
               else if i < 48 then B XOR C XOR D
               else C XOR (B OR NOT D));
          g = (if i < 16 then i
               else if i < 32 then (5 * i + 1) mod 16
               else if i < 48 then (3 * i + 5) mod 16
               else (7 * i) mod 16);
          F' = F + A + md5_K ! i + M ! g
      in (D, B + word_rotl (md5_s ! i) F', B, C))"

fun md5_chunk :: "md5_state \<Rightarrow> 32 word list \<Rightarrow> md5_state" where
  "md5_chunk (a0, b0, c0, d0) M =
     (case foldl (md5_step M) (a0, b0, c0, d0) [0..<64] of
        (A, B, C, D) \<Rightarrow> (a0 + A, b0 + B, c0 + C, d0 + D))"

text \<open>The \<open>k\<close> low bytes of \<open>n\<close>, least significant first.\<close>

primrec le_bytes :: "nat \<Rightarrow> nat \<Rightarrow> byte list" where
  "le_bytes 0 n = []"
| "le_bytes (Suc k) n = of_nat n # le_bytes k (n div 256)"

definition md5_pad :: "byte list \<Rightarrow> byte list" where
  "md5_pad bs = bs @ [0x80] @ replicate ((119 - length bs mod 64) mod 64) 0
                   @ le_bytes 8 (8 * length bs)"

fun le_words :: "byte list \<Rightarrow> 32 word list" where
  "le_words (b0 # b1 # b2 # b3 # bs) =
     (ucast b0 OR push_bit 8 (ucast b1) OR push_bit 16 (ucast b2) OR push_bit 24 (ucast b3))
       # le_words bs"
| "le_words _ = []"

function chunks16 :: "'a list \<Rightarrow> 'a list list" where
  "chunks16 ws = (if ws = [] then [] else take 16 ws # chunks16 (drop 16 ws))"
  by pat_completeness auto
termination
  by (relation "measure length") auto

declare chunks16.simps [simp del]

definition word_le_bytes :: "32 word \<Rightarrow> byte list" where
  "word_le_bytes w = [ucast w, ucast (drop_bit 8 w), ucast (drop_bit 16 w), ucast (drop_bit 24 w)]"

fun md5_hex :: "md5_state \<Rightarrow> string" where
  "md5_hex (a, b, c, d) =
     concat (map hexByte (word_le_bytes a @ word_le_bytes b @ word_le_bytes c @ word_le_bytes d))"

definition md5 :: "byte list \<Rightarrow> string" where
  "md5 bs = md5_hex (foldl md5_chunk md5_init (chunks16 (le_words (md5_pad bs))))"


section \<open>FNV-1a-64, the digest of calculateFastHash (hash\<dots>.md)\<close>

definition FNV_PRIME :: "64 word" where
  "FNV_PRIME = 0x100000001b3"

definition FNV_OFFSET :: "64 word" where
  \<comment> \<open>the default value of the parameter \<^verbatim>\<open>seed\<close>\<close>
  "FNV_OFFSET = 0xcbf29ce484222325"

text \<open>
  \<^verbatim>\<open>hash ^= BigInt(buffer[i]); hash = BigInt.asUintN(64, hash * FNV_PRIME)\<close> for every byte
  of the buffer in order. The seeds are 64-bit values, so the fold stays in \<open>64 word\<close>.
\<close>

definition fnv1a64 :: "byte list \<Rightarrow> 64 word \<Rightarrow> 64 word" where
  "fnv1a64 buffer seed = foldl (\<lambda>hash b. (hash XOR ucast b) * FNV_PRIME) seed buffer"


section \<open>The file system seen by the scanner\<close>

text \<open>
  The fields of \<^verbatim>\<open>fs.Stats\<close> that the scanner reads. Times are the milliseconds returned by
  \<^verbatim>\<open>Date.prototype.getTime()\<close>.
\<close>

record fstat =
  st_size :: nat
  st_birthtime :: int
  st_mtime :: int
  st_atime :: int

text \<open>
  A directory entry and what the file-system calls answer for it. For a regular file,
  \<^verbatim>\<open>fs.promises.stat\<close> answers with the stats or fails (\<open>None\<close>) and reading answers with the
  bytes or fails (\<open>None\<close>). \<open>Directory\<close> is a directory that \<^verbatim>\<open>readdir\<close> lists;
  \<open>Unreadable\<close> is a path on which \<^verbatim>\<open>readdir\<close> fails (a directory without permission or
  deleted meanwhile, a missing root); \<open>Other\<close> is an entry that is neither a regular file nor
  a directory (\<^verbatim>\<open>isFile()\<close> and \<^verbatim>\<open>isDirectory()\<close> both false).
\<close>

datatype fsnode =
    RegularFile string "fstat option" "byte list option"
  | Directory string "fsnode list"
  | Unreadable string
  | Other string

fun name :: "fsnode \<Rightarrow> string" where
  "name (RegularFile n _ _) = n"
| "name (Directory n _) = n"
| "name (Unreadable n) = n"
| "name (Other n) = n"

fun isDirectory :: "fsnode \<Rightarrow> bool" where
  "isDirectory (Directory _ _) = True"
| "isDirectory (Unreadable _) = True"
| "isDirectory _ = False"

fun isFile :: "fsnode \<Rightarrow> bool" where
  "isFile (RegularFile _ _ _) = True"
| "isFile _ = False"

fun statOf :: "fsnode \<Rightarrow> fstat option" where
  "statOf (RegularFile _ s _) = s"
| "statOf _ = None"

fun contentOf :: "fsnode \<Rightarrow> byte list option" where
  "contentOf (RegularFile _ _ c) = c"
| "contentOf _ = None"

fun weight :: "fsnode \<Rightarrow> nat" where
  "weight (Directory n items) = Suc (sum_list (map weight items))"
| "weight _ = 1"

text \<open>\<^verbatim>\<open>path.join(relativePath, item.name)\<close>, where the relative path of the root is empty.\<close>

definition pathJoin :: "string \<Rightarrow> string \<Rightarrow> string" where
  "pathJoin a b = (if a = [] then b else a @ ''/'' @ b)"


section \<open>The scanner (class FastDirectoryScanner)\<close>

record options =
  maxConcurrency :: nat
  batchSize :: nat
  hashThreshold :: nat
  hashSampleSize :: nat
  enableHash :: bool
  sortAlgorithm :: "string option"

definition defaultOptions :: options where
  "defaultOptions = \<lparr> maxConcurrency = 200, batchSize = 50, hashThreshold = 10 * 1024,
      hashSampleSize = 2 * 1024, enableHash = False, sortAlgorithm = None \<rparr>"

text \<open>The options that \<^verbatim>\<open>testHighPerformance()\<close> passes: hashing enabled, 100 concurrent tasks.\<close>

definition testOptions :: options where
  "testOptions = \<lparr> maxConcurrency = 100, batchSize = 50, hashThreshold = 10 * 1024,
      hashSampleSize = 2 * 1024, enableHash = True, sortAlgorithm = None \<rparr>"

record fileInfo =
  path :: string
  fsize :: nat
  createTime :: int
  modifyTime :: int
  accessTime :: int

datatype hashMethod = Full | Sampled

record hashRecord =
  hash :: string
  method' :: hashMethod

record stats =
  directoriesScanned :: nat
  filesScanned :: nat
  concurrentOperations :: nat
  maxConcurrent :: nat
  filesWithHash :: nat
  duplicateCount :: nat
  hashErrors :: nat

text \<open>The lines written with \<^verbatim>\<open>console.warn\<close>, each with the path it prints.\<close>

datatype warning =
    CannotReadDirectory string
  | CannotStatFile string
  | HashFailed string

text \<open>
  The fields of the scanner object. The three \<^verbatim>\<open>Map\<close>s keep their keys in insertion order,
  so they are association lists updated in place (\<^const>\<open>AList.update\<close>). The durations
  measured with \<^verbatim>\<open>Date.now()\<close> are wall-clock readings and are left out. \<open>console\<close> collects
  the warnings printed, which are no field of the object.
\<close>

record scanner =
  fileMap :: "(string \<times> fileInfo) list"
  filesByCreateTime :: "fileInfo list"
  hashMap :: "(string \<times> hashRecord) list"
  duplicateFiles :: "(string \<times> string list) list"
  totalFiles :: nat
  totalSize :: nat
  stats :: stats
  console :: "warning list"

definition zeroStats :: stats where
  "zeroStats = \<lparr> directoriesScanned = 0, filesScanned = 0, concurrentOperations = 0,
      maxConcurrent = 0, filesWithHash = 0, duplicateCount = 0, hashErrors = 0 \<rparr>"

definition newScanner :: scanner where
  "newScanner = \<lparr> fileMap = [], filesByCreateTime = [], hashMap = [], duplicateFiles = [],
      totalFiles = 0, totalSize = 0, stats = zeroStats, console = [] \<rparr>"

definition resetStats :: "scanner \<Rightarrow> scanner" where
  "resetStats st = st \<lparr> fileMap := [], filesByCreateTime := [], hashMap := [],
      duplicateFiles := [], totalFiles := 0, totalSize := 0, stats := zeroStats \<rparr>"

subsection \<open>Hashing\<close>

text \<open>
  A promise that is rejected is \<open>None\<close>. \<open>calculateFullHash\<close> streams the whole file into the
  digest; a read error rejects.
\<close>

definition calculateFullHash :: "byte list option \<Rightarrow> string option" where
  "calculateFullHash content = map_option md5 content"

text \<open>
  One entry of \<^verbatim>\<open>positions\<close>: a start beyond the end of the file is skipped; otherwise
  \<^verbatim>\<open>fs.createReadStream(filePath, {start, end})\<close> with \<open>end = start + length - 1\<close> throws for a
  negative start, a negative end or \<open>end < start\<close>, and streams the bytes from \<open>start\<close> to
  \<open>end\<close> inclusive that the file has.
\<close>

definition readSample :: "byte list option \<Rightarrow> int \<Rightarrow> int \<times> int \<Rightarrow> byte list option" where
  "readSample content fileSize pos =
     (case pos of (start, len) \<Rightarrow>
        if start \<ge> fileSize then Some []
        else if start < 0 \<or> start + len - 1 < start then None
        else map_option (\<lambda>bs. take (nat len) (drop (nat start) bs)) content)"

definition positions :: "int \<Rightarrow> int \<Rightarrow> (int \<times> int) list" where
  "positions sampleSize fileSize =
     [ (0, min sampleSize fileSize),
       (fileSize div 2 - sampleSize div 2, sampleSize),
       (max 0 (fileSize - sampleSize), min sampleSize fileSize) ]"

text \<open>
  The three streams feed one digest. The chunks are taken in the order head, middle, tail, the
  order in which the streams are opened.
\<close>

definition calculateSampledHash :: "options \<Rightarrow> byte list option \<Rightarrow> nat \<Rightarrow> string option" where
  "calculateSampledHash opts content fileSize =
     map_option (\<lambda>chunks. md5 (concat chunks))
       (those (map (readSample content (int fileSize))
                 (positions (int (hashSampleSize opts)) (int fileSize))))"

definition checkDuplicateFiles :: "string \<Rightarrow> string \<Rightarrow> scanner \<Rightarrow> scanner" where
  "checkDuplicateFiles filePath h st =
     (let duplicateList = (case map_of (duplicateFiles st) h of None \<Rightarrow> [] | Some l \<Rightarrow> l)
                            @ [filePath];
          st1 = st \<lparr> duplicateFiles := AList.update h duplicateList (duplicateFiles st) \<rparr>
      in if length duplicateList = 2
         then st1 \<lparr> stats := (stats st1) \<lparr> duplicateCount := duplicateCount (stats st1) + 2 \<rparr> \<rparr>
         else if length duplicateList > 2
         then st1 \<lparr> stats := (stats st1) \<lparr> duplicateCount := duplicateCount (stats st1) + 1 \<rparr> \<rparr>
         else st1)"

definition calculateFileHash ::
  "options \<Rightarrow> byte list option \<Rightarrow> string \<Rightarrow> nat \<Rightarrow> scanner \<Rightarrow> scanner" where
  "calculateFileHash opts content relativePath fileSize st =
     (case (if fileSize \<le> hashThreshold opts then calculateFullHash content
            else calculateSampledHash opts content fileSize) of
        None \<Rightarrow> st \<lparr> console := console st @ [HashFailed relativePath],
                    stats := (stats st) \<lparr> hashErrors := hashErrors (stats st) + 1 \<rparr> \<rparr>
      | Some h \<Rightarrow>
          checkDuplicateFiles relativePath h
            (st \<lparr> hashMap := AList.update relativePath
                       \<lparr> hash = h, method' =
                           (if fileSize \<le> hashThreshold opts then Full else Sampled) \<rparr>
                       (hashMap st),
                  stats := (stats st) \<lparr> filesWithHash := filesWithHash (stats st) + 1 \<rparr> \<rparr>))"

subsection \<open>Metadata\<close>

definition addFileInfo :: "string \<Rightarrow> fstat \<Rightarrow> scanner \<Rightarrow> scanner" where
  "addFileInfo relativePath s st =
     st \<lparr> fileMap := AList.update relativePath
              \<lparr> path = relativePath, fsize = st_size s, createTime = st_birthtime s,
                modifyTime = st_mtime s, accessTime = st_atime s \<rparr> (fileMap st),
          totalFiles := totalFiles st + 1,
          totalSize := totalSize st + st_size s \<rparr>"

definition getFileStat :: "options \<Rightarrow> fsnode \<Rightarrow> string \<Rightarrow> scanner \<Rightarrow> scanner" where
  "getFileStat opts file relativePath st =
     (case statOf file of
        None \<Rightarrow> st \<lparr> console := console st @ [CannotStatFile relativePath] \<rparr>
      | Some s \<Rightarrow>
          (let st1 = addFileInfo relativePath s st;
               st2 = st1 \<lparr> stats := (stats st1) \<lparr> filesScanned := filesScanned (stats st1) + 1 \<rparr> \<rparr>
           in if enableHash opts
              then calculateFileHash opts (contentOf file) relativePath (st_size s) st2
              else st2))"

text \<open>
  \<^verbatim>\<open>for (let i = 0; i < fileStats.length; i += batchSize)\<close>: the files of a batch are taken in
  listing order. With \<open>batchSize = 0\<close> the index never advances and the loop does not end,
  which is the value \<open>None\<close>.
\<close>

function processFilesInBatches ::
  "options \<Rightarrow> nat \<Rightarrow> (fsnode \<times> string) list \<Rightarrow> scanner \<Rightarrow> scanner option" where
  "processFilesInBatches opts i fileStats st =
     (if i < length fileStats
      then (if batchSize opts = 0 then None
            else processFilesInBatches opts (i + batchSize opts) fileStats
                   (foldl (\<lambda>s (file, rel). getFileStat opts file rel s) st
                      (take (batchSize opts) (drop i fileStats))))
      else Some st)"
  by pat_completeness auto
termination
  by (relation "measure (\<lambda>(opts, i, fileStats, st). length fileStats - i)") auto

declare processFilesInBatches.simps [simp del]


subsection \<open>Traversal under the concurrency cap\<close>

text \<open>
  A queued task is the closure \<^verbatim>\<open>() => this._processDirectory(itemFullPath, itemRelativePath, queue)\<close>:
  the relative path and the directory to list.
\<close>

type_synonym task = "string \<times> fsnode"

text \<open>
  \<open>processDirectory\<close> returns the queue after its pushes and the scanner after its updates.
  Every error of \<^verbatim>\<open>readdir\<close> is caught and printed, whatever the directory, so the promise of
  a task is never rejected; it stays pending (\<open>None\<close>) when the batch loop does not end.
\<close>

definition processDirectory ::
  "options \<Rightarrow> fsnode \<Rightarrow> string \<Rightarrow> task list \<Rightarrow> scanner \<Rightarrow> (task list \<times> scanner) option" where
  "processDirectory opts dir relativePath queue st =
     (case dir of
        Directory _ items \<Rightarrow>
          (let st1 = st \<lparr> stats := (stats st)
                        \<lparr> directoriesScanned := directoriesScanned (stats st) + 1 \<rparr> \<rparr>;
               queue' = queue @ map (\<lambda>item. (pathJoin relativePath (name item), item))
                                    (filter isDirectory items);
               fileStats = map (\<lambda>item. (item, pathJoin relativePath (name item)))
                               (filter isFile items)
           in if fileStats \<noteq> []
              then map_option (Pair queue') (processFilesInBatches opts 0 fileStats st1)
              else Some (queue', st1))
      | _ \<Rightarrow> Some (queue, st \<lparr> console := console st @ [CannotReadDirectory relativePath] \<rparr>))"

text \<open>The local variables \<^verbatim>\<open>queue\<close> and \<^verbatim>\<open>activePromises\<close> of \<^verbatim>\<open>_scanWithConcurrencyQueue\<close>.\<close>

record pool =
  queue :: "task list"
  activePromises :: nat

text \<open>
  \<^verbatim>\<open>processQueue\<close>: its loop has no \<^verbatim>\<open>await\<close>, so it runs to its end whenever it is called.
  The tasks it starts are returned in the order they were started.
\<close>

function processQueue ::
  "options \<Rightarrow> task list \<Rightarrow> pool \<Rightarrow> scanner \<Rightarrow> task list \<times> pool \<times> scanner" where
  "processQueue opts started p st =
     (if queue p \<noteq> [] \<and> activePromises p < maxConcurrency opts
      then (let n = activePromises p + 1;
                st1 = st \<lparr> stats := (stats st)
                         \<lparr> concurrentOperations := n,
                           maxConcurrent := max (maxConcurrent (stats st)) n \<rparr> \<rparr>
            in processQueue opts (started @ [hd (queue p)])
                 (p \<lparr> queue := tl (queue p), activePromises := n \<rparr>) st1)
      else (started, p, st))"
  by pat_completeness auto
termination
  by (relation "measure (\<lambda>(opts, started, p, st). length (queue p))") auto

declare processQueue.simps [simp del]

definition tasksWeight :: "task list \<Rightarrow> nat" where
  "tasksWeight ts = sum_list (map (\<lambda>t. weight (snd t)) ts)"

lemma tasksWeight_append [simp]: "tasksWeight (xs @ ys) = tasksWeight xs + tasksWeight ys"
  by (simp add: tasksWeight_def)

lemma tasksWeight_Cons [simp]: "tasksWeight (t # ts) = weight (snd t) + tasksWeight ts"
  by (simp add: tasksWeight_def)

lemma tasksWeight_Nil [simp]: "tasksWeight [] = 0"
  by (simp add: tasksWeight_def)

lemma tasksWeight_subdirs:
  "tasksWeight (map (\<lambda>item. (f item, item)) (filter P items)) \<le> sum_list (map weight items)"
  by (induction items) (auto simp: tasksWeight_def)

lemma processDirectory_weight:
  assumes "processDirectory opts dir rel q st = Some (q', st')"
  shows "tasksWeight q' < tasksWeight q + weight dir"
proof (cases dir)
  case (Directory n items)
  with assms have "q' = q @ map (\<lambda>item. (pathJoin rel (name item), item)) (filter isDirectory items)"
    by (auto simp: processDirectory_def Let_def split: if_splits)
  then show ?thesis
    using tasksWeight_subdirs [of "\<lambda>item. pathJoin rel (name item)" isDirectory items] Directory
    by simp
qed (use assms in \<open>auto simp: processDirectory_def\<close>)

lemma processQueue_weight:
  "processQueue opts started p st = (started', p', st') \<Longrightarrow>
   tasksWeight started' + tasksWeight (queue p') = tasksWeight started + tasksWeight (queue p)"
proof (induction opts started p st rule: processQueue.induct)
  case (1 opts started p st)
  show ?case
  proof (cases "queue p \<noteq> [] \<and> activePromises p < maxConcurrency opts")
    case True
    then obtain t ts where q: "queue p = t # ts" by (cases "queue p") auto
    from True "1.prems" have
      "processQueue opts (started @ [hd (queue p)])
         (p \<lparr> queue := tl (queue p), activePromises := activePromises p + 1 \<rparr>)
         (st \<lparr> stats := (stats st)
                \<lparr> concurrentOperations := activePromises p + 1,
                  maxConcurrent := max (maxConcurrent (stats st)) (activePromises p + 1) \<rparr> \<rparr>)
       = (started', p', st')"
      by (subst (asm) processQueue.simps) (simp add: Let_def)
    from "1.IH" [OF True refl refl this] show ?thesis
      by (simp add: q)
  next
    case False
    with "1.prems" show ?thesis
      by (subst (asm) processQueue.simps) auto
  qed
qed

text \<open>
  The event loop of one scan. \<open>running\<close> holds the tasks started and not yet settled; they
  settle in the order they were started. When a task settles, its \<^verbatim>\<open>finally\<close> callback gives
  its slot back, calls \<^verbatim>\<open>processQueue\<close> and resolves \<^verbatim>\<open>finishPromise\<close> when no task is active and
  the queue is empty. When no task is running and the promise is not resolved, it never will be
  (\<open>None\<close>).
\<close>

function eventLoop :: "options \<Rightarrow> task list \<Rightarrow> pool \<Rightarrow> scanner \<Rightarrow> scanner option" where
  "eventLoop opts running p st =
     (case running of
        [] \<Rightarrow> None
      | t # rest \<Rightarrow>
          (case processDirectory opts (snd t) (fst t) (queue p) st of
             None \<Rightarrow> None
           | Some qs \<Rightarrow>
               (case processQueue opts []
                       \<lparr> queue = fst qs, activePromises = activePromises p - 1 \<rparr> (snd qs) of
                  (started, p2, st2) \<Rightarrow>
                    if activePromises p2 = 0 \<and> queue p2 = [] then Some st2
                    else eventLoop opts (rest @ started) p2 st2)))"
  by pat_completeness auto
termination
proof (relation "measure (\<lambda>(opts, running, p, st). tasksWeight running + tasksWeight (queue p))",
       goal_cases)
  case 1
  show ?case by simp
next
  case (2 opts running p st t rest qs started x p2 st2)
  from 2(2) have "tasksWeight (fst qs) < tasksWeight (queue p) + weight (snd t)"
    using processDirectory_weight [of opts "snd t" "fst t" "queue p" st "fst qs" "snd qs"] by simp
  moreover from 2(3,4) have "tasksWeight started + tasksWeight (queue p2) = tasksWeight (fst qs)"
    using processQueue_weight [of opts "[]" "\<lparr> queue = fst qs, activePromises = activePromises p - 1 \<rparr>"
            "snd qs" started p2 st2] by simp
  ultimately show ?case using 2(1) by simp
qed

declare eventLoop.simps [simp del]

text \<open>How an asynchronous call ends: with a value, with an exception, or never.\<close>

datatype 'a outcome = Returns (returned: 'a) | Throws | Pending

text \<open>
  \<^verbatim>\<open>_scanWithConcurrencyQueue\<close>: the root task is queued, \<^verbatim>\<open>processQueue\<close> is called once, and
  the scan waits for \<^verbatim>\<open>finishPromise\<close>. No task rejects, so \<^verbatim>\<open>rejectFinish\<close> is never called.
\<close>

definition scanWithConcurrencyQueue :: "options \<Rightarrow> fsnode \<Rightarrow> scanner \<Rightarrow> scanner outcome" where
  "scanWithConcurrencyQueue opts rootDir st =
     (case processQueue opts [] \<lparr> queue = [([], rootDir)], activePromises = 0 \<rparr> st of
        (started, p, st1) \<Rightarrow>
          (case eventLoop opts started p st1 of None \<Rightarrow> Pending | Some st2 \<Rightarrow> Returns st2))"


subsection \<open>Sorting and the result\<close>

text \<open>
  \<^verbatim>\<open>_quickSortByTime\<close> builds and returns a new array; its argument is left as it was.
\<close>

function quickSortByTime :: "fileInfo list \<Rightarrow> fileInfo list" where
  "quickSortByTime arr =
     (if length arr \<le> 1 then arr
      else (let pivot = arr ! (length arr div 2);
                left = filter (\<lambda>file. createTime file - createTime pivot < 0) arr;
                right = filter (\<lambda>file. \<not> createTime file - createTime pivot < 0
                                       \<and> createTime file - createTime pivot > 0) arr;
                equal = filter (\<lambda>file. \<not> createTime file - createTime pivot < 0
                                       \<and> \<not> createTime file - createTime pivot > 0) arr
            in quickSortByTime left @ equal @ quickSortByTime right))"
  by pat_completeness auto
termination
proof (relation "measure length", goal_cases)
  case 1
  show ?case by simp
next
  case (2 arr pivot left)
  have "pivot \<in> set arr" using 2 by simp
  moreover have "\<not> createTime pivot - createTime pivot < 0" by simp
  ultimately have "length left < length arr"
    unfolding 2(3) by (intro length_filter_less [of pivot]) auto
  then show ?case by simp
next
  case (3 arr pivot left right)
  have "pivot \<in> set arr" using 3 by simp
  moreover have "\<not> (\<not> createTime pivot - createTime pivot < 0
                    \<and> createTime pivot - createTime pivot > 0)" by simp
  ultimately have "length right < length arr"
    unfolding 3(4) by (intro length_filter_less [of pivot]) auto
  then show ?case by simp
qed

declare quickSortByTime.simps [simp del]

text \<open>
  \<^verbatim>\<open>filesArray.sort((a, b) => a.createTime.getTime() - b.createTime.getTime())\<close> sorts the array
  in place and is stable (ECMAScript 2019): it is the insertion by key of \<^const>\<open>sort_key\<close>.
  Under \<^verbatim>\<open>sortAlgorithm === 'quick'\<close> the statement \<^verbatim>\<open>this._quickSortByTime(filesArray)\<close> drops the
  array that is returned, and \<^verbatim>\<open>filesArray\<close> is stored as it was.
\<close>

definition sortFilesByCreateTime :: "options \<Rightarrow> scanner \<Rightarrow> scanner" where
  "sortFilesByCreateTime opts st =
     (let filesArray = map snd (fileMap st);
          filesArray' = (if sortAlgorithm opts = Some ''quick''
                         then fst (filesArray, quickSortByTime filesArray)
                         else sort_key createTime filesArray)
      in st \<lparr> filesByCreateTime := filesArray' \<rparr>)"

text \<open>The fields of the object returned by \<^verbatim>\<open>_getScanResults\<close>, the durations left out.\<close>

record scanResult =
  r_totalFiles :: nat
  r_totalSize :: nat
  r_stats :: stats

definition getScanResults :: "scanner \<Rightarrow> scanResult" where
  "getScanResults st =
     \<lparr> r_totalFiles = totalFiles st, r_totalSize = totalSize st, r_stats = stats st \<rparr>"

text \<open>
  \<^verbatim>\<open>scanDirectory\<close>: the result and the scanner object as the scan leaves it. An exception of
  the traversal would be printed and thrown again.
\<close>

definition scanDirectory ::
  "options \<Rightarrow> fsnode \<Rightarrow> scanner \<Rightarrow> (scanResult \<times> scanner) outcome" where
  "scanDirectory opts rootDir st =
     (case scanWithConcurrencyQueue opts rootDir (resetStats st) of
        Returns st1 \<Rightarrow>
          (let st2 = sortFilesByCreateTime opts st1 in Returns (getScanResults st2, st2))
      | Throws \<Rightarrow> Throws
      | Pending \<Rightarrow> Pending)"

subsection \<open>Queries\<close>


text \<open>\<^verbatim>\<open>Map.prototype.get\<close> answers \<^verbatim>\<open>undefined\<close> for a missing key: \<open>None\<close>.\<close>

definition getFileHash :: "scanner \<Rightarrow> string \<Rightarrow> hashRecord option" where
  "getFileHash st filePath = map_of (hashMap st) filePath"

definition getFilesByHash :: "scanner \<Rightarrow> string \<Rightarrow> string list" where
  "getFilesByHash st h = (case map_of (duplicateFiles st) h of None \<Rightarrow> [] | Some files \<Rightarrow> files)"


section \<open>calculateFastHash (hash\<dots>.md)\<close>

definition THRESHOLD :: nat where
  "THRESHOLD = 10 * 1024"

definition BLOCK_SIZE :: nat where
  "BLOCK_SIZE = 2 * 1024"

text \<open>
  \<^verbatim>\<open>fileHandle.read(buffer, offset, length, position)\<close> into a part of a zero-filled buffer:
  the bytes the file has from \<open>position\<close>, at most \<open>length\<close>, the rest of the part staying zero.
\<close>

definition readAt :: "byte list \<Rightarrow> nat \<Rightarrow> nat \<Rightarrow> byte list" where
  "readAt bs position len =
     (let got = take len (drop position bs) in got @ replicate (len - length got) 0)"

definition sampleBuffer :: "nat \<Rightarrow> byte list \<Rightarrow> byte list" where
  "sampleBuffer fileSize bs =
     (if fileSize < THRESHOLD then readAt bs 0 fileSize
      else readAt bs 0 BLOCK_SIZE
           @ readAt bs (fileSize div 2 - BLOCK_SIZE div 2) BLOCK_SIZE
           @ readAt bs (fileSize - BLOCK_SIZE) BLOCK_SIZE)"

text \<open>
  The digest as a 64-bit value: the content hash, then the size as 8 little-endian bytes
  hashed with the content hash as seed.
\<close>

definition fastHashValue :: "nat \<Rightarrow> byte list \<Rightarrow> 64 word" where
  "fastHashValue fileSize bs =
     fnv1a64 (le_bytes 8 fileSize) (fnv1a64 (sampleBuffer fileSize bs) FNV_OFFSET)"

text \<open>
  \<^verbatim>\<open>calculateFastHash\<close>: opening, \<^verbatim>\<open>stat\<close> and reading may fail, and \<^verbatim>\<open>writeBigUInt64LE\<close> throws
  for a size of \<open>2^64\<close> or more; the error is thrown again (\<open>None\<close>).
\<close>

definition calculateFastHash :: "fsnode \<Rightarrow> string option" where
  "calculateFastHash file =
     (case (statOf file, contentOf file) of
        (Some s, Some bs) \<Rightarrow>
          if st_size s < 2 ^ 64
          then Some (padStart 16 (CHR ''0'') (toString16 (unat (fastHashValue (st_size s) bs))))
          else None
      | _ \<Rightarrow> None)"


section \<open>The scheduler as a transition system\<close>

text \<open>
  Whatever the order in which the tasks run and settle, the pool and the scanner change in
  three ways once \<^verbatim>\<open>_scanWithConcurrencyQueue\<close> has queued the root and called \<^verbatim>\<open>processQueue\<close>:
  a running task pushes a subdirectory on the queue; a running task updates the data of the
  scanner, which leaves the two concurrency statistics alone; a running task settles, and its
  \<^verbatim>\<open>finally\<close> callback gives the slot back and calls \<^verbatim>\<open>processQueue\<close>.
\<close>

definition poolStart :: "options \<Rightarrow> fsnode \<Rightarrow> scanner \<Rightarrow> pool \<times> scanner" where
  "poolStart opts rootDir st =
     snd (processQueue opts [] \<lparr> queue = [([], rootDir)], activePromises = 0 \<rparr> (resetStats st))"

inductive poolStep :: "options \<Rightarrow> pool \<times> scanner \<Rightarrow> pool \<times> scanner \<Rightarrow> bool" for opts where
  push: "0 < activePromises p \<Longrightarrow> poolStep opts (p, st) (p \<lparr> queue := queue p @ [t] \<rparr>, st)"
| work: "0 < activePromises p \<Longrightarrow>
         concurrentOperations (stats st') = concurrentOperations (stats st) \<Longrightarrow>
         maxConcurrent (stats st') = maxConcurrent (stats st) \<Longrightarrow>
         poolStep opts (p, st) (p, st')"
| settle: "0 < activePromises p \<Longrightarrow>
         poolStep opts (p, st)
           (snd (processQueue opts [] (p \<lparr> activePromises := activePromises p - 1 \<rparr>) st))"



section \<open>What a scan hashes\<close>

text \<open>
  The digest that \<^verbatim>\<open>_calculateFileHash\<close> computes for a file of the given size, \<open>None\<close> when
  the computation fails.
\<close>

definition fileDigest :: "options \<Rightarrow> byte list option \<Rightarrow> nat \<Rightarrow> string option" where
  "fileDigest opts content fileSize =
     (if fileSize \<le> hashThreshold opts then calculateFullHash content
      else calculateSampledHash opts content fileSize)"

text \<open>
  The pairs of relative path and digest of the files that a scan of a directory hashes: the
  regular files below it whose \<^verbatim>\<open>stat\<close> and digest succeed, when hashing is enabled.
\<close>

definition hashedFile :: "options \<Rightarrow> string \<Rightarrow> fsnode \<Rightarrow> (string \<times> string) list" where
  "hashedFile opts relativePath file =
     (if enableHash opts
      then (case statOf file of
              None \<Rightarrow> []
            | Some s \<Rightarrow> (case fileDigest opts (contentOf file) (st_size s) of
                          None \<Rightarrow> []
                        | Some h \<Rightarrow> [(relativePath, h)]))
      else [])"

fun hashedFiles :: "options \<Rightarrow> string \<Rightarrow> fsnode \<Rightarrow> (string \<times> string) list" where
  "hashedFiles opts rel (Directory n items) =
     concat (map (\<lambda>item. if isFile item then hashedFile opts (pathJoin rel (name item)) item
                         else hashedFiles opts (pathJoin rel (name item)) item) items)"
| "hashedFiles opts rel _ = []"

definition hashedWithin :: "(string \<times> string) list \<Rightarrow> scanner \<Rightarrow> bool" where
  "hashedWithin D st =
     (fst ` set (hashMap st) \<subseteq> fst ` set D \<and> fst ` set (duplicateFiles st) \<subseteq> snd ` set D)"


section \<open>Duplicate groups\<close>

text \<open>
  The number of paths that belong to a digest group with at least two members, over the
  groups of the duplicate index.
\<close>

definition groupedPaths :: "scanner \<Rightarrow> nat" where
  "groupedPaths st =
     sum_list (map (\<lambda>g. if 2 \<le> length (snd g) then length (snd g) else 0) (duplicateFiles st))"


text \<open>A root with a file and a byte-identical copy of it in a subdirectory.\<close>

definition treeDup :: fsnode where
  "treeDup = Directory ''root''
     [ RegularFile ''a.txt''
         (Some \<lparr> st_size = 3, st_birthtime = 5, st_mtime = 6, st_atime = 7 \<rparr>) (Some [1, 2, 3]),
       Directory ''sub''
         [ RegularFile ''copy.txt''
             (Some \<lparr> st_size = 3, st_birthtime = 8, st_mtime = 8, st_atime = 8 \<rparr>) (Some [1, 2, 3]) ] ]"


text \<open>A root with two files; the creation time of \<^verbatim>\<open>a.txt\<close> is 5 and that of \<^verbatim>\<open>b.txt\<close> is 2.\<close>

definition tree7 :: fsnode where
  "tree7 = Directory ''root''
     [ RegularFile ''a.txt''
         (Some \<lparr> st_size = 3, st_birthtime = 5, st_mtime = 6, st_atime = 7 \<rparr>) (Some [1, 2, 3]),
       RegularFile ''b.txt''
         (Some \<lparr> st_size = 0, st_birthtime = 2, st_mtime = 2, st_atime = 2 \<rparr>) (Some []) ]"


text \<open>
  The pool and the scanner once the root task of the scan of \<open>tree7\<close> under the default
  options has settled.
\<close>

definition afterFirstSettle :: "pool \<times> scanner" where
  "afterFirstSettle =
     snd (processQueue defaultOptions []
            ((fst (poolStart defaultOptions tree7 newScanner))
               \<lparr> activePromises := activePromises (fst (poolStart defaultOptions tree7 newScanner)) - 1 \<rparr>)
            (snd (poolStart defaultOptions tree7 newScanner)))"


text \<open>A path that \<^verbatim>\<open>readdir\<close> lists.\<close>

fun listable :: "fsnode \<Rightarrow> bool" where
  "listable (Directory _ _) = True"
| "listable _ = False"


section \<open>The recoverable errors of a tree\<close>



text \<open>
  The warning of a file: its \<^verbatim>\<open>stat\<close> fails, or hashing is enabled and its digest fails.
\<close>

definition fileWarnings :: "options \<Rightarrow> string \<Rightarrow> fsnode \<Rightarrow> warning list" where
  "fileWarnings opts relativePath f =
     (case statOf f of
        None \<Rightarrow> [CannotStatFile relativePath]
      | Some s \<Rightarrow>
          if enableHash opts \<and> fileDigest opts (contentOf f) (st_size s) = None
          then [HashFailed relativePath] else [])"


text \<open>
  The warnings of the task that lists a path: those of its files and of the tasks of its
  subdirectories when the path can be listed, the warning for the path itself otherwise.
\<close>

fun taskWarnings :: "options \<Rightarrow> string \<Rightarrow> fsnode \<Rightarrow> warning list" where
  "taskWarnings opts rel (Directory n items) =
     concat (map (\<lambda>item. if isFile item then fileWarnings opts (pathJoin rel (name item)) item
                         else if isDirectory item
                         then taskWarnings opts (pathJoin rel (name item)) item
                         else []) items)"
| "taskWarnings opts rel _ = [CannotReadDirectory rel]"

definition pendingWarnings :: "options \<Rightarrow> task list \<Rightarrow> warning list" where
  "pendingWarnings opts ts = concat (map (\<lambda>t. taskWarnings opts (fst t) (snd t)) ts)"





text \<open>
  A root whose listing gives \<^verbatim>\<open>b.txt\<close> and \<^verbatim>\<open>a.txt\<close>, both created at time 5, and then
  \<^verbatim>\<open>c.txt\<close>, created at time 1.
\<close>

definition treeTies :: fsnode where
  "treeTies = Directory ''root''
     [ RegularFile ''b.txt''
         (Some \<lparr> st_size = 1, st_birthtime = 5, st_mtime = 5, st_atime = 5 \<rparr>) (Some [1]),
       RegularFile ''a.txt''
         (Some \<lparr> st_size = 1, st_birthtime = 5, st_mtime = 5, st_atime = 5 \<rparr>) (Some [2]),
       RegularFile ''c.txt''
         (Some \<lparr> st_size = 1, st_birthtime = 1, st_mtime = 1, st_atime = 1 \<rparr>) (Some [3]) ]"





text \<open>A file of the two bytes \<open>ae 99\<close>, whose fast hash begins with three zero digits.\<close>

definition paddedFile :: fsnode where
  "paddedFile = RegularFile ''two.bin''
     (Some \<lparr> st_size = 2, st_birthtime = 0, st_mtime = 0, st_atime = 0 \<rparr>) (Some [0xae, 0x99])"


section \<open>Reading a digest back\<close>









section \<open>Facts about the traversal\<close>

lemma processQueue_unfold:
  "processQueue opts started p st =
     (if queue p \<noteq> [] \<and> activePromises p < maxConcurrency opts
      then processQueue opts (started @ [hd (queue p)])
             (p \<lparr> queue := tl (queue p), activePromises := activePromises p + 1 \<rparr>)
             (st \<lparr> stats := (stats st)
                \<lparr> concurrentOperations := activePromises p + 1,
                  maxConcurrent := max (maxConcurrent (stats st)) (activePromises p + 1) \<rparr> \<rparr>)
      else (started, p, st))"
  by (subst processQueue.simps) (simp add: Let_def)

lemma processQueue_rule:
  assumes run: "processQueue opts started p st = (started', p', st')"
    and stop: "\<And>started p st. \<not> (queue p \<noteq> [] \<and> activePromises p < maxConcurrency opts) \<Longrightarrow> R started p st started p st"
    and step: "\<And>started p st t ts started' p' st'.
        queue p = t # ts \<Longrightarrow> activePromises p < maxConcurrency opts \<Longrightarrow>
        R (started @ [t]) (p \<lparr> queue := ts, activePromises := activePromises p + 1 \<rparr>)
          (st \<lparr> stats := (stats st)
                \<lparr> concurrentOperations := activePromises p + 1,
                  maxConcurrent := max (maxConcurrent (stats st)) (activePromises p + 1) \<rparr> \<rparr>)
          started' p' st' \<Longrightarrow>
        R started p st started' p' st'"
  shows "R started p st started' p' st'"
  using run stop step
proof (induction opts started p st rule: processQueue.induct)
  case (1 opts started p st)
  show ?case
  proof (cases "queue p \<noteq> [] \<and> activePromises p < maxConcurrency opts")
    case True
    then obtain t ts where q: "queue p = t # ts" by (cases "queue p") auto
    from True "1.prems"(1) have *:
      "processQueue opts (started @ [hd (queue p)])
         (p \<lparr> queue := tl (queue p), activePromises := activePromises p + 1 \<rparr>)
         (st \<lparr> stats := (stats st)
                \<lparr> concurrentOperations := activePromises p + 1,
                  maxConcurrent := max (maxConcurrent (stats st)) (activePromises p + 1) \<rparr> \<rparr>)
       = (started', p', st')"
      by (subst (asm) processQueue_unfold) simp
    have "R (started @ [hd (queue p)])
         (p \<lparr> queue := tl (queue p), activePromises := activePromises p + 1 \<rparr>)
         (st \<lparr> stats := (stats st)
                \<lparr> concurrentOperations := activePromises p + 1,
                  maxConcurrent := max (maxConcurrent (stats st)) (activePromises p + 1) \<rparr> \<rparr>)
         started' p' st'"
      by (rule "1.IH" [OF True refl refl * "1.prems"(2,3)])
    with q True show ?thesis
      by (intro "1.prems"(3) [of p t ts started st]) auto
  next
    case False
    with "1.prems"(1) "1.prems"(2) [of p started st] show ?thesis
      by (subst (asm) processQueue_unfold) auto
  qed
qed

lemma processFilesInBatches_Some:
  "batchSize opts \<noteq> 0 \<Longrightarrow>
   processFilesInBatches opts i fileStats st =
     Some (foldl (\<lambda>s (file, rel). getFileStat opts file rel s) st (drop i fileStats))"
proof (induction opts i fileStats st rule: processFilesInBatches.induct)
  case (1 opts i fileStats st)
  show ?case
  proof (cases "i < length fileStats")
    case True
    have "drop i fileStats = take (batchSize opts) (drop i fileStats) @ drop (i + batchSize opts) fileStats"
      by (metis add.commute append_take_drop_id drop_drop)
    then have "foldl (\<lambda>s (file, rel). getFileStat opts file rel s) st (drop i fileStats)
       = foldl (\<lambda>s (file, rel). getFileStat opts file rel s)
           (foldl (\<lambda>s (file, rel). getFileStat opts file rel s) st (take (batchSize opts) (drop i fileStats)))
           (drop (i + batchSize opts) fileStats)"
      by (metis foldl_append)
    with True 1 show ?thesis
      by (subst processFilesInBatches.simps) simp
  next
    case False
    then show ?thesis by (subst processFilesInBatches.simps) simp
  qed
qed

lemma processFilesInBatches_None:
  "batchSize opts = 0 \<Longrightarrow> fileStats \<noteq> [] \<Longrightarrow> processFilesInBatches opts 0 fileStats st = None"
  by (subst processFilesInBatches.simps) simp

lemma eventLoop_unfold:
  "eventLoop opts (t # rest) p st =
     (case processDirectory opts (snd t) (fst t) (queue p) st of
        None \<Rightarrow> None
      | Some qs \<Rightarrow>
          (case processQueue opts []
                  \<lparr> queue = fst qs, activePromises = activePromises p - 1 \<rparr> (snd qs) of
             (started, p2, st2) \<Rightarrow>
               if activePromises p2 = 0 \<and> queue p2 = [] then Some st2
               else eventLoop opts (rest @ started) p2 st2))"
  by (subst eventLoop.simps) simp

lemma eventLoop_Nil: "eventLoop opts [] p st = None"
  by (subst eventLoop.simps) simp

lemma eventLoop_rule:
  assumes run: "eventLoop opts running p st = Some st'"
    and init: "I running p st"
    and step: "\<And>t rest p st q1 st1 started p2 st2.
        I (t # rest) p st \<Longrightarrow>
        processDirectory opts (snd t) (fst t) (queue p) st = Some (q1, st1) \<Longrightarrow>
        processQueue opts [] \<lparr> queue = q1, activePromises = activePromises p - 1 \<rparr> st1
          = (started, p2, st2) \<Longrightarrow>
        I (rest @ started) p2 st2"
  shows "\<exists>running' p'. I running' p' st' \<and> activePromises p' = 0 \<and> queue p' = []"
  using run init step
proof (induction opts running p st rule: eventLoop.induct)
  case (1 opts running p st)
  from "1.prems"(1) obtain t rest where r: "running = t # rest"
    by (cases running) (auto simp: eventLoop_Nil)
  from "1.prems"(1) r obtain qs where pd: "processDirectory opts (snd t) (fst t) (queue p) st = Some qs"
    by (auto simp: eventLoop_unfold split: option.splits)
  obtain started p2 st2 where pq:
    "processQueue opts [] \<lparr> queue = fst qs, activePromises = activePromises p - 1 \<rparr> (snd qs)
       = (started, p2, st2)"
    by (metis prod_cases3)
  have I2: "I (rest @ started) p2 st2"
    using "1.prems"(3) [of t rest p st "fst qs" "snd qs" started p2 st2] "1.prems"(2) r pd pq by simp
  show ?case
  proof (cases "activePromises p2 = 0 \<and> queue p2 = []")
    case True
    with "1.prems"(1) r pd pq have "st' = st2" by (simp add: eventLoop_unfold)
    with I2 True show ?thesis by blast
  next
    case False
    with "1.prems"(1) r pd pq have "eventLoop opts (rest @ started) p2 st2 = Some st'"
      by (auto simp: eventLoop_unfold split: if_splits)
    from "1.IH" [OF r pd pq [symmetric] refl False this I2 "1.prems"(3)] show ?thesis by simp
  qed
qed

lemma processQueue_tasks:
  "processQueue opts started p st = (started', p', st') \<Longrightarrow>
   started' @ queue p' = started @ queue p"
  by (erule processQueue_rule) auto

lemma processQueue_active:
  "processQueue opts started p st = (started', p', st') \<Longrightarrow>
   activePromises p' + length started = activePromises p + length started'"
  by (erule processQueue_rule) auto

lemma processQueue_stop:
  "processQueue opts started p st = (started', p', st') \<Longrightarrow>
   queue p' = [] \<or> maxConcurrency opts \<le> activePromises p'"
  by (erule processQueue_rule) auto

lemma processQueue_cap_aux:
  "processQueue opts started p st = (started', p', st') \<Longrightarrow>
   activePromises p \<le> maxConcurrency opts \<and> maxConcurrent (stats st) \<le> maxConcurrency opts \<longrightarrow>
   activePromises p' \<le> maxConcurrency opts \<and> maxConcurrent (stats st') \<le> maxConcurrency opts"
  by (erule processQueue_rule) auto

lemma processQueue_cap:
  "processQueue opts started p st = (started', p', st') \<Longrightarrow>
   activePromises p \<le> maxConcurrency opts \<Longrightarrow> maxConcurrent (stats st) \<le> maxConcurrency opts \<Longrightarrow>
   activePromises p' \<le> maxConcurrency opts \<and> maxConcurrent (stats st') \<le> maxConcurrency opts"
  using processQueue_cap_aux by blast

lemma processQueue_data:
  "processQueue opts started p st = (started', p', st') \<Longrightarrow>
   \<exists>n m. st' = st \<lparr> stats := (stats st) \<lparr> concurrentOperations := n, maxConcurrent := m \<rparr> \<rparr>"
proof (erule processQueue_rule, goal_cases)
  case (1 started p st)
  have "st = st \<lparr> stats := (stats st) \<lparr> concurrentOperations := concurrentOperations (stats st),
                  maxConcurrent := maxConcurrent (stats st) \<rparr> \<rparr>" by simp
  then show ?case by blast
next
  case (2 started p st t ts started' p' st')
  then show ?case by auto
qed

lemma processDirectory_returns:
  "0 < batchSize opts \<Longrightarrow> \<exists>qs. processDirectory opts dir rel q st = Some qs"
  by (cases dir) (auto simp: processDirectory_def Let_def processFilesInBatches_Some)

lemma eventLoop_returns:
  assumes "0 < maxConcurrency opts" and "0 < batchSize opts"
    and "activePromises p = length running" and "running \<noteq> []"
  shows "\<exists>st'. eventLoop opts running p st = Some st'"
  using assms
proof (induction opts running p st rule: eventLoop.induct)
  case (1 opts running p st)
  from "1.prems"(4) obtain t rest where r: "running = t # rest" by (cases running) auto
  from processDirectory_returns [OF "1.prems"(2)]
  obtain qs where pd: "processDirectory opts (snd t) (fst t) (queue p) st = Some qs" by blast
  obtain started p2 st2 where pq:
    "processQueue opts [] \<lparr> queue = fst qs, activePromises = activePromises p - 1 \<rparr> (snd qs)
       = (started, p2, st2)"
    by (metis prod_cases3)
  from processQueue_active [OF pq] "1.prems"(3) r
  have len: "activePromises p2 = length (rest @ started)" by simp
  show ?case
  proof (cases "activePromises p2 = 0 \<and> queue p2 = []")
    case True
    with r pd pq show ?thesis by (simp add: eventLoop_unfold)
  next
    case False
    from processQueue_stop [OF pq] "1.prems"(1) False have "rest @ started \<noteq> []"
      using len by auto
    from "1.IH" [OF r pd pq [symmetric] refl False "1.prems"(1,2) len this]
    show ?thesis using r pd pq False by (auto simp: eventLoop_unfold)
  qed
qed

lemma scanWithConcurrencyQueue_returns:
  assumes "0 < maxConcurrency opts" and "0 < batchSize opts"
  shows "\<exists>st'. scanWithConcurrencyQueue opts rootDir st = Returns st'"
proof -
  obtain started p st1 where pq:
    "processQueue opts [] \<lparr> queue = [([], rootDir)], activePromises = 0 \<rparr> st = (started, p, st1)"
    by (metis prod_cases3)
  from processQueue_active [OF pq] have len: "activePromises p = length started" by simp
  from processQueue_stop [OF pq] processQueue_tasks [OF pq] assms(1) len
  have "started \<noteq> []" by auto
  from eventLoop_returns [OF assms len this, of st1] pq show ?thesis
    by (auto simp: scanWithConcurrencyQueue_def)
qed

lemma scanWithConcurrencyQueue_pending:
  "maxConcurrency opts = 0 \<Longrightarrow> scanWithConcurrencyQueue opts rootDir st = Pending"
  by (simp add: scanWithConcurrencyQueue_def processQueue_unfold eventLoop_Nil)

lemma processDirectory_Directory:
  assumes "processDirectory opts (Directory n items) rel q st = Some (q', st')"
  shows "q' = q @ map (\<lambda>item. (pathJoin rel (name item), item)) (filter isDirectory items)"
    and "st' = foldl (\<lambda>s (file, rel). getFileStat opts file rel s)
                 (st \<lparr> stats := (stats st) \<lparr> directoriesScanned := directoriesScanned (stats st) + 1 \<rparr> \<rparr>)
                 (map (\<lambda>item. (item, pathJoin rel (name item))) (filter isFile items))"
proof -
  let ?fs = "map (\<lambda>item. (item, pathJoin rel (name item))) (filter isFile items)"
  show "q' = q @ map (\<lambda>item. (pathJoin rel (name item), item)) (filter isDirectory items)"
    using assms by (auto simp: processDirectory_def Let_def split: if_splits)
  show "st' = foldl (\<lambda>s (file, rel). getFileStat opts file rel s)
                 (st \<lparr> stats := (stats st) \<lparr> directoriesScanned := directoriesScanned (stats st) + 1 \<rparr> \<rparr>)
                 ?fs"
  proof (cases "?fs = []")
    case True
    with assms show ?thesis by (auto simp: processDirectory_def Let_def split: if_splits)
  next
    case False
    have bs: "batchSize opts \<noteq> 0"
    proof
      assume "batchSize opts = 0"
      from processFilesInBatches_None [OF this False] assms False show False
        by (simp add: processDirectory_def Let_def)
    qed
    from assms False show ?thesis
      unfolding processDirectory_def Let_def
      by (auto simp: processFilesInBatches_Some [OF bs] split: if_splits)
  qed
qed

lemma processDirectory_other:
  assumes "processDirectory opts dir rel q st = Some (q', st')" and "\<And>n items. dir \<noteq> Directory n items"
  shows "q' = q" and "st' = st \<lparr> console := console st @ [CannotReadDirectory rel] \<rparr>"
  using assms by (cases dir; auto simp: processDirectory_def)+

lemma scanWithConcurrencyQueue_invariant:
  assumes run: "scanWithConcurrencyQueue opts rootDir st = Returns st'"
    and P0: "P st" and Q0: "Q ([], rootDir)"
    and step: "\<And>t q st q' st'. Q t \<Longrightarrow> P st \<Longrightarrow>
         processDirectory opts (snd t) (fst t) q st = Some (q', st') \<Longrightarrow>
         P st' \<and> (\<forall>t' \<in> set q'. t' \<in> set q \<or> Q t')"
    and conc: "\<And>st n m. P st \<Longrightarrow>
         P (st \<lparr> stats := (stats st) \<lparr> concurrentOperations := n, maxConcurrent := m \<rparr> \<rparr>)"
  shows "P st'"
proof -
  obtain started p st1 where pq:
    "processQueue opts [] \<lparr> queue = [([], rootDir)], activePromises = 0 \<rparr> st = (started, p, st1)"
    by (metis prod_cases3)
  with run have el: "eventLoop opts started p st1 = Some st'"
    by (auto simp: scanWithConcurrencyQueue_def split: option.splits)
  define I where "I = (\<lambda>running (p::pool) st. P st \<and> (\<forall>t \<in> set running \<union> set (queue p). Q t))"
  from processQueue_data [OF pq] P0 conc have "P st1" by auto
  moreover from processQueue_tasks [OF pq] have "set started \<union> set (queue p) = {([], rootDir)}"
    by (metis append_Nil pool.select_convs(1) set_append list.simps(15) empty_set)
  ultimately have init: "I started p st1" using Q0 by (simp add: I_def)
  have "\<exists>running' p'. I running' p' st' \<and> activePromises p' = 0 \<and> queue p' = []"
  proof (rule eventLoop_rule [where I = I, OF el init], goal_cases)
    case (1 t rest p st q1 st1 started p2 st2)
    from 1(1) have Qt: "Q t" and Pst: "P st" and Qall: "\<forall>t \<in> set rest \<union> set (queue p). Q t"
      by (auto simp: I_def)
    from step [OF Qt Pst 1(2)] have P1: "P st1" and Qq: "\<forall>t' \<in> set q1. t' \<in> set (queue p) \<or> Q t'"
      by auto
    from processQueue_data [OF 1(3)] P1 conc have "P st2" by auto
    moreover from processQueue_tasks [OF 1(3)] have "set started \<union> set (queue p2) = set q1"
      by (metis append_Nil pool.select_convs(1) set_append)
    ultimately show ?case using Qall Qq by (auto simp: I_def)
  qed
  then show ?thesis by (auto simp: I_def)
qed

lemma foldl_preserves:
  assumes "P s" and "\<And>x s. x \<in> set xs \<Longrightarrow> P s \<Longrightarrow> P (f s x)"
  shows "P (foldl f s xs)"
  using assms by (induction xs arbitrary: s) auto

lemma processDirectory_preserves:
  assumes run: "processDirectory opts dir rel q st = Some (q', st')"
    and P0: "P st"
    and files: "\<And>n items file s. dir = Directory n items \<Longrightarrow> file \<in> set items \<Longrightarrow> isFile file \<Longrightarrow>
                  P s \<Longrightarrow> P (getFileStat opts file (pathJoin rel (name file)) s)"
    and count: "\<And>s n. P s \<Longrightarrow> P (s \<lparr> stats := (stats s) \<lparr> directoriesScanned := n \<rparr> \<rparr>)"
    and warn: "\<And>s. P s \<Longrightarrow> P (s \<lparr> console := console s @ [CannotReadDirectory rel] \<rparr>)"
  shows "P st'"
proof (cases "\<exists>n items. dir = Directory n items")
  case True
  then obtain n items where d: "dir = Directory n items" by blast
  show ?thesis
    unfolding processDirectory_Directory(2) [OF run [unfolded d]]
    by (rule foldl_preserves) (auto intro: count P0 files [OF d])
next
  case False
  then show ?thesis
    using processDirectory_other(2) [OF run] warn [OF P0] by auto
qed

lemma processDirectory_queue:
  assumes "processDirectory opts dir rel q st = Some (q', st')" and "t \<in> set q'"
  shows "t \<in> set q \<or> (\<exists>n items item. dir = Directory n items \<and> item \<in> set items \<and> isDirectory item
           \<and> t = (pathJoin rel (name item), item))"
proof (cases "\<exists>n items. dir = Directory n items")
  case True
  then obtain n items where d: "dir = Directory n items" by blast
  from assms(2) show ?thesis
    unfolding processDirectory_Directory(1) [OF assms(1) [unfolded d]] using d by auto
next
  case False
  then show ?thesis using processDirectory_other(1) [OF assms(1)] assms(2) by auto
qed

lemma scanDirectory_invariant:
  assumes run: "scanDirectory opts rootDir st0 = Returns (r, st)"
    and P0: "P (resetStats st0)" and Q0: "Q ([], rootDir)"
    and step: "\<And>t q st q' st'. Q t \<Longrightarrow> P st \<Longrightarrow>
         processDirectory opts (snd t) (fst t) q st = Some (q', st') \<Longrightarrow>
         P st' \<and> (\<forall>t' \<in> set q'. t' \<in> set q \<or> Q t')"
    and conc: "\<And>st n m. P st \<Longrightarrow>
         P (st \<lparr> stats := (stats st) \<lparr> concurrentOperations := n, maxConcurrent := m \<rparr> \<rparr>)"
    and sorted: "\<And>st xs. P st \<Longrightarrow> P (st \<lparr> filesByCreateTime := xs \<rparr>)"
  shows "P st"
proof -
  from run obtain st1 where s1: "scanWithConcurrencyQueue opts rootDir (resetStats st0) = Returns st1"
    and st: "st = sortFilesByCreateTime opts st1"
    by (auto simp: scanDirectory_def Let_def split: outcome.splits)
  have "P st1"
    by (rule scanWithConcurrencyQueue_invariant [where P = P and Q = Q, OF s1 P0 Q0 step conc])
  then show ?thesis unfolding st sortFilesByCreateTime_def Let_def by (rule sorted)
qed

lemma scanDirectory_result:
  assumes "scanDirectory opts rootDir st0 = Returns (r, st)"
  shows "r = getScanResults st"
  using assms by (auto simp: scanDirectory_def Let_def split: outcome.splits)

lemma scanDirectory_sorted:
  assumes "scanDirectory opts rootDir st0 = Returns (r, st)"
  shows "filesByCreateTime st = (if sortAlgorithm opts = Some ''quick'' then map snd (fileMap st)
                                 else sort_key createTime (map snd (fileMap st)))"
  using assms by (auto simp: scanDirectory_def sortFilesByCreateTime_def Let_def split: outcome.splits)

lemmas scan_eval = scanDirectory_def scanWithConcurrencyQueue_def processQueue_unfold eventLoop_unfold
     processDirectory_def defaultOptions_def testOptions_def newScanner_def resetStats_def
     processFilesInBatches_Some getFileStat_def addFileInfo_def pathJoin_def sortFilesByCreateTime_def
     getScanResults_def zeroStats_def calculateFileHash_def checkDuplicateFiles_def
     calculateFullHash_def



section \<open>Queries over a finished session\<close>

lemma scan_tree7:
  "scanDirectory defaultOptions tree7 newScanner =
     Returns
      (\<lparr> r_totalFiles = 2, r_totalSize = 3,
         r_stats = \<lparr> directoriesScanned = 1, filesScanned = 2, concurrentOperations = 1,
           maxConcurrent = 1, filesWithHash = 0, duplicateCount = 0, hashErrors = 0 \<rparr> \<rparr>,
       \<lparr> fileMap =
           [ (''a.txt'', \<lparr> path = ''a.txt'', fsize = 3, createTime = 5, modifyTime = 6,
                           accessTime = 7 \<rparr>),
             (''b.txt'', \<lparr> path = ''b.txt'', fsize = 0, createTime = 2, modifyTime = 2,
                           accessTime = 2 \<rparr>) ],
         filesByCreateTime =
           [ \<lparr> path = ''b.txt'', fsize = 0, createTime = 2, modifyTime = 2, accessTime = 2 \<rparr>,
             \<lparr> path = ''a.txt'', fsize = 3, createTime = 5, modifyTime = 6, accessTime = 7 \<rparr> ],
         hashMap = [], duplicateFiles = [], totalFiles = 2, totalSize = 3,
         stats = \<lparr> directoriesScanned = 1, filesScanned = 2, concurrentOperations = 1,
           maxConcurrent = 1, filesWithHash = 0, duplicateCount = 0, hashErrors = 0 \<rparr>,
         console = [] \<rparr>)"
  by (simp add: scan_eval tree7_def)





lemma md5_length: "length (md5 bs) = 32"
proof -
  have "length (md5_hex s) = 32" for s
    by (cases s) (simp add: word_le_bytes_def hexByte_def)
  then show ?thesis by (simp add: md5_def)
qed

lemma scanDirectory_returns:
  assumes "0 < maxConcurrency opts" and "0 < batchSize opts"
  shows "scanDirectory opts rootDir st0 = Returns (returned (scanDirectory opts rootDir st0))"
proof -
  from scanWithConcurrencyQueue_returns [OF assms, of rootDir "resetStats st0"]
  obtain st1 where "scanWithConcurrencyQueue opts rootDir (resetStats st0) = Returns st1" by blast
  then show ?thesis by (simp add: scanDirectory_def Let_def)
qed

lemma dom_update_keys: "fst ` set (AList.update k v al) = insert k (fst ` set al)"
  by (induction al) auto

lemma getFileStat_hashedWithin:
  assumes "hashedWithin D st" and "set (hashedFile opts rel file) \<subseteq> set D"
  shows "hashedWithin D (getFileStat opts file rel st)"
proof (cases "statOf file")
  case None
  with assms show ?thesis by (simp add: getFileStat_def hashedWithin_def)
next
  case (Some s)
  show ?thesis
  proof (cases "enableHash opts")
    case False
    with Some assms show ?thesis
      by (simp add: getFileStat_def hashedWithin_def addFileInfo_def Let_def)
  next
    case True
    show ?thesis
    proof (cases "fileDigest opts (contentOf file) (st_size s)")
      case None
      with Some True assms show ?thesis
        by (simp add: getFileStat_def hashedWithin_def addFileInfo_def Let_def
              calculateFileHash_def fileDigest_def)
    next
      case (Some h)
      with \<open>statOf file = Some s\<close> True assms(2) have "(rel, h) \<in> set D"
        by (simp add: hashedFile_def)
      then have "rel \<in> fst ` set D" "h \<in> snd ` set D" by force+
      with Some \<open>statOf file = Some s\<close> True assms(1) show ?thesis
        by (simp add: getFileStat_def hashedWithin_def addFileInfo_def Let_def
              calculateFileHash_def fileDigest_def checkDuplicateFiles_def dom_update_keys)
    qed
  qed
qed

lemma scan_hashedWithin:
  assumes run: "scanDirectory opts rootDir st0 = Returns (r, st)"
  shows "hashedWithin (hashedFiles opts [] rootDir) st"
proof (rule scanDirectory_invariant
    [where P = "hashedWithin (hashedFiles opts [] rootDir)"
       and Q = "\<lambda>t. set (hashedFiles opts (fst t) (snd t)) \<subseteq> set (hashedFiles opts [] rootDir)",
     OF run], goal_cases)
  case 1
  show ?case by (simp add: hashedWithin_def resetStats_def)
next
  case 2
  show ?case by simp
next
  case (3 t q st q' st')
  let ?D = "hashedFiles opts [] rootDir"
  have "hashedWithin ?D st'"
  proof (rule processDirectory_preserves [where P = "hashedWithin ?D", OF 3(3) 3(2)], goal_cases)
    case (1 n items f s)
    then have "set (hashedFile opts (pathJoin (fst t) (name f)) f)
                 \<subseteq> set (hashedFiles opts (fst t) (snd t))"
      by auto
    with 3(1) have "set (hashedFile opts (pathJoin (fst t) (name f)) f) \<subseteq> set ?D" by blast
    with 1(4) show ?case by (rule getFileStat_hashedWithin)
  next
    case (2 s n)
    then show ?case by (simp add: hashedWithin_def)
  next
    case (3 s)
    then show ?case by (simp add: hashedWithin_def)
  qed
  moreover have "\<forall>t' \<in> set q'. t' \<in> set q \<or>
      set (hashedFiles opts (fst t') (snd t')) \<subseteq> set ?D"
  proof
    fix t' assume "t' \<in> set q'"
    from processDirectory_queue [OF 3(3) this] show "t' \<in> set q \<or>
      set (hashedFiles opts (fst t') (snd t')) \<subseteq> set ?D"
    proof
      assume "\<exists>n items item. snd t = Directory n items \<and> item \<in> set items \<and> isDirectory item
           \<and> t' = (pathJoin (fst t) (name item), item)"
      then obtain n items item where d: "snd t = Directory n items" "item \<in> set items"
        "isDirectory item" "t' = (pathJoin (fst t) (name item), item)" by blast
      from d(3) have "\<not> isFile item" by (cases item) auto
      with d have "set (hashedFiles opts (fst t') (snd t')) \<subseteq> set (hashedFiles opts (fst t) (snd t))"
        by auto
      with 3(1) show ?thesis by blast
    qed simp
  qed
  ultimately show ?case by blast
next
  case (4 st n m)
  then show ?case by (simp add: hashedWithin_def)
next
  case (5 st xs)
  then show ?case by (simp add: hashedWithin_def)
qed


text \<open>
  C10: after every scan that returns, the paths-by-digest query answers the empty list for a
  digest that no hashed file of the scan produced, and the digest-by-path query answers
  \<^verbatim>\<open>undefined\<close> (\<open>None\<close>) for a path that the scan did not hash.
\<close>

theorem queries_of_unhashed:
  assumes "scanDirectory opts rootDir st0 = Returns (r, st)"
  shows "(h \<notin> snd ` set (hashedFiles opts [] rootDir) \<longrightarrow> getFilesByHash st h = [])
       \<and> (filePath \<notin> fst ` set (hashedFiles opts [] rootDir) \<longrightarrow> getFileHash st filePath = None)"
proof -
  from scan_hashedWithin [OF assms]
  have 1: "fst ` set (hashMap st) \<subseteq> fst ` set (hashedFiles opts [] rootDir)"
    and 2: "fst ` set (duplicateFiles st) \<subseteq> snd ` set (hashedFiles opts [] rootDir)"
    by (auto simp: hashedWithin_def)
  have "getFilesByHash st h = []" if "h \<notin> snd ` set (hashedFiles opts [] rootDir)"
  proof -
    from that 2 have "h \<notin> fst ` set (duplicateFiles st)" by blast
    then have "map_of (duplicateFiles st) h = None" by (simp add: map_of_eq_None_iff)
    then show ?thesis by (simp add: getFilesByHash_def)
  qed
  moreover have "getFileHash st filePath = None" if "filePath \<notin> fst ` set (hashedFiles opts [] rootDir)"
  proof -
    from that 1 have "filePath \<notin> fst ` set (hashMap st)" by blast
    then show ?thesis by (simp add: getFileHash_def map_of_eq_None_iff)
  qed
  ultimately show ?thesis by blast
qed


theorem queries_of_unhashed_witness:
  "getFilesByHash (snd (returned (scanDirectory testOptions tree7 newScanner))) ''0000'' = []
   \<and> getFileHash (snd (returned (scanDirectory testOptions tree7 newScanner))) ''c.txt'' = None"
proof -
  have run: "scanDirectory testOptions tree7 newScanner =
      Returns (fst (returned (scanDirectory testOptions tree7 newScanner)),
               snd (returned (scanDirectory testOptions tree7 newScanner)))"
    using scanDirectory_returns [of testOptions tree7 newScanner] by (simp add: testOptions_def)
  have files: "hashedFiles testOptions [] tree7 = [(''a.txt'', md5 [1, 2, 3]), (''b.txt'', md5 [])]"
    by (simp add: tree7_def hashedFile_def fileDigest_def calculateFullHash_def testOptions_def
          pathJoin_def)
  have "''0000'' \<noteq> md5 bs" for bs
  proof
    assume "''0000'' = md5 bs"
    then have "length ''0000'' = length (md5 bs)" by (rule arg_cong)
    then show False by (simp add: md5_length)
  qed
  then show ?thesis
    using queries_of_unhashed [OF run, of "''0000''" "''c.txt''"] by (simp add: files)
qed

section \<open>The duplicate counter\<close>

lemma groupedPaths_update:
  "sum_list (map (\<lambda>g. if 2 \<le> length (snd g) then length (snd g) else 0) (AList.update h l al))
     + (case map_of al h of None \<Rightarrow> 0 | Some old \<Rightarrow> if 2 \<le> length old then length old else 0)
   = sum_list (map (\<lambda>g. if 2 \<le> length (snd g) then length (snd g) else 0) al)
     + (if 2 \<le> length l then length l else 0)"
  by (induction al) auto

lemma checkDuplicateFiles_count:
  "duplicateCount (stats (checkDuplicateFiles filePath h st)) =
     duplicateCount (stats st)
       + (if length (getFilesByHash st h) = 1 then 2
          else if 2 \<le> length (getFilesByHash st h) then 1 else 0)"
  by (auto simp: checkDuplicateFiles_def getFilesByHash_def Let_def split: option.splits)

lemma checkDuplicateFiles_grouped:
  "groupedPaths (checkDuplicateFiles filePath h st) =
     groupedPaths st
       + (if length (getFilesByHash st h) = 1 then 2
          else if 2 \<le> length (getFilesByHash st h) then 1 else 0)"
proof -
  let ?old = "case map_of (duplicateFiles st) h of None \<Rightarrow> [] | Some l \<Rightarrow> l"
  have dl: "duplicateFiles (checkDuplicateFiles filePath h st)
              = AList.update h (?old @ [filePath]) (duplicateFiles st)"
    by (simp add: checkDuplicateFiles_def Let_def)
  show ?thesis
    unfolding groupedPaths_def dl getFilesByHash_def
    using groupedPaths_update [of h "?old @ [filePath]" "duplicateFiles st"]
    by (auto split: option.splits)
qed

lemma checkDuplicateFiles_preserves:
  "duplicateCount (stats st) = groupedPaths st \<Longrightarrow>
   duplicateCount (stats (checkDuplicateFiles filePath h st)) = groupedPaths (checkDuplicateFiles filePath h st)"
  by (simp only: checkDuplicateFiles_count checkDuplicateFiles_grouped)

lemma scan_treeDup: "scanDirectory testOptions treeDup newScanner =
  Returns
      (\<lparr> r_totalFiles = 2, r_totalSize = 6,
         r_stats = \<lparr> directoriesScanned = 2, filesScanned = 2, concurrentOperations = 1,
           maxConcurrent = 1, filesWithHash = 2, duplicateCount = 2, hashErrors = 0 \<rparr> \<rparr>,
       \<lparr> fileMap =
           [ (''a.txt'', \<lparr> path = ''a.txt'', fsize = 3, createTime = 5, modifyTime = 6,
                           accessTime = 7 \<rparr>),
             (''sub/copy.txt'', \<lparr> path = ''sub/copy.txt'', fsize = 3, createTime = 8, modifyTime = 8,
                           accessTime = 8 \<rparr>) ],
         filesByCreateTime =
           [ \<lparr> path = ''a.txt'', fsize = 3, createTime = 5, modifyTime = 6, accessTime = 7 \<rparr>,
             \<lparr> path = ''sub/copy.txt'', fsize = 3, createTime = 8, modifyTime = 8, accessTime = 8 \<rparr> ],
         hashMap = [ (''a.txt'', \<lparr> hash = md5 [1, 2, 3], method' = Full \<rparr>),
                     (''sub/copy.txt'', \<lparr> hash = md5 [1, 2, 3], method' = Full \<rparr>) ],
         duplicateFiles = [ (md5 [1, 2, 3], [''a.txt'', ''sub/copy.txt'']) ],
         totalFiles = 2, totalSize = 6,
         stats = \<lparr> directoriesScanned = 2, filesScanned = 2, concurrentOperations = 1,
           maxConcurrent = 1, filesWithHash = 2, duplicateCount = 2, hashErrors = 0 \<rparr>,
         console = [] \<rparr>)"
  by (simp add: scan_eval treeDup_def)

lemma duplicateCount_keep:
  assumes "duplicateCount (stats st) = groupedPaths st"
    and "duplicateFiles s' = duplicateFiles st"
    and "duplicateCount (stats s') = duplicateCount (stats st)"
  shows "duplicateCount (stats s') = groupedPaths s'"
  using assms by (simp add: groupedPaths_def)

lemma calculateFileHash_duplicateCount:
  assumes "duplicateCount (stats st) = groupedPaths st"
  shows "duplicateCount (stats (calculateFileHash opts content rel n st))
           = groupedPaths (calculateFileHash opts content rel n st)"
proof (cases "fileDigest opts content n")
  case None
  then have "calculateFileHash opts content rel n st
      = st \<lparr> console := console st @ [HashFailed rel],
             stats := (stats st) \<lparr> hashErrors := hashErrors (stats st) + 1 \<rparr> \<rparr>"
    by (simp add: calculateFileHash_def fileDigest_def)
  then show ?thesis by (simp only:) (rule duplicateCount_keep [OF assms], simp_all)
next
  case (Some h)
  then have "calculateFileHash opts content rel n st
      = checkDuplicateFiles rel h
            (st \<lparr> hashMap := AList.update rel
                       \<lparr> hash = h, method' =
                           (if n \<le> hashThreshold opts then Full else Sampled) \<rparr>
                       (hashMap st),
                  stats := (stats st) \<lparr> filesWithHash := filesWithHash (stats st) + 1 \<rparr> \<rparr>)"
    by (simp add: calculateFileHash_def fileDigest_def)
  then show ?thesis
    by (simp only:)
       (rule checkDuplicateFiles_preserves, rule duplicateCount_keep [OF assms], simp_all)
qed

lemma getFileStat_duplicateCount:
  assumes "duplicateCount (stats st) = groupedPaths st"
  shows "duplicateCount (stats (getFileStat opts f rel st)) = groupedPaths (getFileStat opts f rel st)"
proof (cases "statOf f")
  case None
  then have "getFileStat opts f rel st = st \<lparr> console := console st @ [CannotStatFile rel] \<rparr>"
    by (simp add: getFileStat_def)
  then show ?thesis by (simp only:) (rule duplicateCount_keep [OF assms], simp_all)
next
  case (Some s)
  let ?st1 = "addFileInfo rel s st"
  let ?st2 = "?st1 \<lparr> stats := (stats ?st1) \<lparr> filesScanned := filesScanned (stats ?st1) + 1 \<rparr> \<rparr>"
  have 2: "duplicateCount (stats ?st2) = groupedPaths ?st2"
    by (rule duplicateCount_keep [OF assms]) (simp_all add: addFileInfo_def)
  have "getFileStat opts f rel st =
          (if enableHash opts then calculateFileHash opts (contentOf f) rel (st_size s) ?st2 else ?st2)"
    using Some by (simp add: getFileStat_def Let_def)
  then show ?thesis
    using 2 calculateFileHash_duplicateCount [OF 2, of opts "contentOf f" rel "st_size s"]
    by (cases "enableHash opts") (simp_all only: if_True if_False)
qed

lemma scan_duplicateCount:
  assumes run: "scanDirectory opts rootDir st0 = Returns (r, st)"
  shows "duplicateCount (stats st) = groupedPaths st"
proof (rule scanDirectory_invariant
    [where P = "\<lambda>st. duplicateCount (stats st) = groupedPaths st" and Q = "\<lambda>t. True", OF run],
    goal_cases)
  case 1
  show ?case by (simp add: resetStats_def zeroStats_def groupedPaths_def)
next
  case (3 t q st q' st')
  have "duplicateCount (stats st') = groupedPaths st'"
  proof (rule processDirectory_preserves
          [where P = "\<lambda>st. duplicateCount (stats st) = groupedPaths st", OF 3(3) 3(2)], goal_cases)
    case (1 n items f s)
    then show ?case by (simp add: getFileStat_duplicateCount)
  next
    case (2 s n)
    then show ?case by (simp add: groupedPaths_def)
  next
    case (3 s)
    then show ?case by (simp add: groupedPaths_def)
  qed
  then show ?case by simp
next
  case (4 st n m)
  then show ?case by (simp add: groupedPaths_def)
next
  case (5 st xs)
  then show ?case by (simp add: groupedPaths_def)
qed simp


text \<open>
  C9: the counter \<open>duplicateCount\<close> equals the number of paths in digest groups of two or
  more members after every sequence of insertions into a reset scanner, and so in the result of
  every scan that returns; the insertion that finds one path in the group adds 2, an insertion
  that finds two or more adds 1, the first insertion of a digest adds nothing.
\<close>

theorem duplicateCount_counts_grouped_paths:
  "duplicateCount (stats (foldl (\<lambda>s ins. checkDuplicateFiles (fst ins) (snd ins) s)
                            (resetStats st0) insertions))
     = groupedPaths (foldl (\<lambda>s ins. checkDuplicateFiles (fst ins) (snd ins) s)
                            (resetStats st0) insertions)
   \<and> duplicateCount (stats (checkDuplicateFiles filePath h st))
     = duplicateCount (stats st)
         + (if length (getFilesByHash st h) = 1 then 2
            else if 2 \<le> length (getFilesByHash st h) then 1 else 0)
   \<and> (scanDirectory opts rootDir st0 = Returns (r, st') \<longrightarrow>
        duplicateCount (r_stats r) = groupedPaths st')"
proof (intro conjI impI)
  show "duplicateCount (stats (foldl (\<lambda>s ins. checkDuplicateFiles (fst ins) (snd ins) s)
                            (resetStats st0) insertions))
     = groupedPaths (foldl (\<lambda>s ins. checkDuplicateFiles (fst ins) (snd ins) s)
                            (resetStats st0) insertions)"
  proof (rule foldl_preserves)
    show "duplicateCount (stats (resetStats st0)) = groupedPaths (resetStats st0)"
      by (simp add: resetStats_def zeroStats_def groupedPaths_def)
  qed (rule checkDuplicateFiles_preserves)
  show "duplicateCount (stats (checkDuplicateFiles filePath h st))
     = duplicateCount (stats st)
         + (if length (getFilesByHash st h) = 1 then 2
            else if 2 \<le> length (getFilesByHash st h) then 1 else 0)"
    by (rule checkDuplicateFiles_count)
  assume run: "scanDirectory opts rootDir st0 = Returns (r, st')"
  from scan_duplicateCount [OF run] scanDirectory_result [OF run]
  show "duplicateCount (r_stats r) = groupedPaths st'"
    by (simp add: getScanResults_def)
qed

theorem duplicateCount_counts_grouped_paths_witness:
  "duplicateCount (r_stats (fst (returned (scanDirectory testOptions treeDup newScanner)))) = 2
   \<and> groupedPaths (snd (returned (scanDirectory testOptions treeDup newScanner))) = 2"
  using duplicateCount_counts_grouped_paths [of newScanner "[]" "''x''" "''y''" newScanner
          testOptions treeDup "fst (returned (scanDirectory testOptions treeDup newScanner))"
          "snd (returned (scanDirectory testOptions treeDup newScanner))"]
  by (simp add: scan_treeDup)

section \<open>The concurrency cap\<close>

lemma getFileStat_maxConcurrent:
  "maxConcurrent (stats (getFileStat opts f rel st)) = maxConcurrent (stats st)"
  by (simp add: getFileStat_def addFileInfo_def calculateFileHash_def checkDuplicateFiles_def Let_def
        split: option.splits)

lemma processDirectory_maxConcurrent:
  assumes "processDirectory opts dir rel q st = Some (q', st')"
  shows "maxConcurrent (stats st') = maxConcurrent (stats st)"
  by (rule processDirectory_preserves
        [where P = "\<lambda>s. maxConcurrent (stats s) = maxConcurrent (stats st)", OF assms])
     (simp_all add: getFileStat_maxConcurrent)

lemma poolStart_cap:
  "activePromises (fst (poolStart opts rootDir st0)) \<le> maxConcurrency opts
   \<and> maxConcurrent (stats (snd (poolStart opts rootDir st0))) \<le> maxConcurrency opts"
proof -
  obtain started p st where pq:
    "processQueue opts [] \<lparr> queue = [([], rootDir)], activePromises = 0 \<rparr> (resetStats st0)
       = (started, p, st)"
    by (metis prod_cases3)
  have "maxConcurrent (stats (resetStats st0)) = 0"
    by (simp add: resetStats_def zeroStats_def)
  with processQueue_cap [OF pq]
  have "activePromises p \<le> maxConcurrency opts \<and> maxConcurrent (stats st) \<le> maxConcurrency opts"
    by simp
  then show ?thesis by (simp add: poolStart_def pq)
qed

lemma poolStep_cap:
  assumes "poolStep opts x y"
    and "activePromises (fst x) \<le> maxConcurrency opts \<and> maxConcurrent (stats (snd x)) \<le> maxConcurrency opts"
  shows "activePromises (fst y) \<le> maxConcurrency opts \<and> maxConcurrent (stats (snd y)) \<le> maxConcurrency opts"
  using assms
proof (cases rule: poolStep.cases)
  case (push p t st)
  with assms(2) show ?thesis by simp
next
  case (work p st' st)
  with assms(2) show ?thesis by simp
next
  case (settle p st)
  obtain started p' st' where pq:
    "processQueue opts [] (p \<lparr> activePromises := activePromises p - 1 \<rparr>) st = (started, p', st')"
    by (metis prod_cases3)
  from assms(2) settle have "activePromises (p \<lparr> activePromises := activePromises p - 1 \<rparr>)
      \<le> maxConcurrency opts" "maxConcurrent (stats st) \<le> maxConcurrency opts"
    by auto
  from processQueue_cap [OF pq this]
  show ?thesis unfolding settle(2) pq by simp
qed

lemma scan_maxConcurrent:
  assumes run: "scanDirectory opts rootDir st0 = Returns (r, st)"
  shows "maxConcurrent (r_stats r) \<le> maxConcurrency opts"
proof -
  from run obtain st1 where s1: "scanWithConcurrencyQueue opts rootDir (resetStats st0) = Returns st1"
    and st: "st = sortFilesByCreateTime opts st1"
    by (auto simp: scanDirectory_def Let_def split: outcome.splits)
  obtain started p s where pq:
    "processQueue opts [] \<lparr> queue = [([], rootDir)], activePromises = 0 \<rparr> (resetStats st0)
       = (started, p, s)"
    by (metis prod_cases3)
  with s1 have el: "eventLoop opts started p s = Some st1"
    by (auto simp: scanWithConcurrencyQueue_def split: option.splits)
  define I where "I = (\<lambda>(running::task list) (p::pool) (st::scanner).
      activePromises p \<le> maxConcurrency opts \<and> maxConcurrent (stats st) \<le> maxConcurrency opts)"
  have "maxConcurrent (stats (resetStats st0)) = 0"
    by (simp add: resetStats_def zeroStats_def)
  with processQueue_cap [OF pq] have init: "I started p s"
    by (simp add: I_def)
  have "\<exists>running' p'. I running' p' st1 \<and> activePromises p' = 0 \<and> queue p' = []"
  proof (rule eventLoop_rule [where I = I, OF el init], goal_cases)
    case (1 t rest p st q1 st1 started p2 st2)
    from 1(1) processDirectory_maxConcurrent [OF 1(2)]
    have "activePromises p - 1 \<le> maxConcurrency opts" "maxConcurrent (stats st1) \<le> maxConcurrency opts"
      by (auto simp: I_def)
    with processQueue_cap [OF 1(3)] show ?case by (simp add: I_def)
  qed
  then have "maxConcurrent (stats st1) \<le> maxConcurrency opts" by (auto simp: I_def)
  with scanDirectory_result [OF run] st show ?thesis
    by (simp add: getScanResults_def sortFilesByCreateTime_def Let_def)
qed


text \<open>
  C8: in every state that the scheduler reaches, whatever the order in which tasks push, work
  and settle, the number of active tasks is at most \<open>maxConcurrency\<close>, and so is the peak
  statistic \<open>maxConcurrent\<close>; the peak reported by every scan that returns is at most
  \<open>maxConcurrency\<close>. The cap is a count (\<open>nat\<close>).
\<close>

theorem active_tasks_bounded:
  "((poolStep opts)\<^sup>*\<^sup>* (poolStart opts rootDir st0) (p, st) \<longrightarrow>
       activePromises p \<le> maxConcurrency opts \<and> maxConcurrent (stats st) \<le> maxConcurrency opts)
   \<and> (scanDirectory opts rootDir st0 = Returns (r, st') \<longrightarrow>
       maxConcurrent (r_stats r) \<le> maxConcurrency opts)"
proof (intro conjI impI)
  assume "(poolStep opts)\<^sup>*\<^sup>* (poolStart opts rootDir st0) (p, st)"
  then have "activePromises (fst (p, st)) \<le> maxConcurrency opts
           \<and> maxConcurrent (stats (snd (p, st))) \<le> maxConcurrency opts"
  proof (induction rule: rtranclp_induct)
    case base
    show ?case by (rule poolStart_cap)
  next
    case (step y z)
    from poolStep_cap [OF step(2) step(3)] show ?case .
  qed
  then show "activePromises p \<le> maxConcurrency opts" "maxConcurrent (stats st) \<le> maxConcurrency opts"
    by simp_all
next
  assume "scanDirectory opts rootDir st0 = Returns (r, st')"
  then show "maxConcurrent (r_stats r) \<le> maxConcurrency opts" by (rule scan_maxConcurrent)
qed

theorem active_tasks_bounded_witness:
  "activePromises (fst (poolStart defaultOptions tree7 newScanner)) = 1
   \<and> activePromises (fst afterFirstSettle) \<le> maxConcurrency defaultOptions
   \<and> maxConcurrent (stats (snd afterFirstSettle)) \<le> maxConcurrency defaultOptions
   \<and> maxConcurrent (r_stats (fst (returned (scanDirectory defaultOptions tree7 newScanner))))
        \<le> maxConcurrency defaultOptions"
proof -
  have a: "activePromises (fst (poolStart defaultOptions tree7 newScanner)) = 1"
    by (simp add: poolStart_def processQueue_unfold defaultOptions_def)
  then have "poolStep defaultOptions (poolStart defaultOptions tree7 newScanner) afterFirstSettle"
    unfolding afterFirstSettle_def
    using poolStep.settle [of "fst (poolStart defaultOptions tree7 newScanner)" defaultOptions
                              "snd (poolStart defaultOptions tree7 newScanner)"]
    by simp
  then have "(poolStep defaultOptions)\<^sup>*\<^sup>* (poolStart defaultOptions tree7 newScanner)
               (fst afterFirstSettle, snd afterFirstSettle)"
    by simp
  with a scan_tree7 show ?thesis
    using active_tasks_bounded [of defaultOptions tree7 newScanner "fst afterFirstSettle"
            "snd afterFirstSettle"
            "fst (returned (scanDirectory defaultOptions tree7 newScanner))"
            "snd (returned (scanDirectory defaultOptions tree7 newScanner))"]
    by simp
qed

section \<open>Failures and the result of a scan\<close>

lemma scan_unreadable:
  "scanDirectory defaultOptions (Unreadable ''missing'') newScanner =
     Returns
      (\<lparr> r_totalFiles = 0, r_totalSize = 0,
         r_stats = \<lparr> directoriesScanned = 0, filesScanned = 0, concurrentOperations = 1,
           maxConcurrent = 1, filesWithHash = 0, duplicateCount = 0, hashErrors = 0 \<rparr> \<rparr>,
       \<lparr> fileMap = [], filesByCreateTime = [], hashMap = [], duplicateFiles = [],
         totalFiles = 0, totalSize = 0,
         stats = \<lparr> directoriesScanned = 0, filesScanned = 0, concurrentOperations = 1,
           maxConcurrent = 1, filesWithHash = 0, duplicateCount = 0, hashErrors = 0 \<rparr>,
         console = [CannotReadDirectory []] \<rparr>)"
  by (simp add: scan_eval)


text \<open>
  C2, as stated, fails: the scan of a root that cannot be listed returns a result, with no
  files, no directories and one warning printed; \<^verbatim>\<open>_processDirectory\<close> catches the error of
  \<^verbatim>\<open>readdir\<close> for the root as for every other directory. And with \<open>maxConcurrency = 0\<close> the
  scan of a readable root admits no task, with \<open>batchSize = 0\<close> its batch loop does not
  advance: neither scan returns.
\<close>

theorem unreadable_root_returns_result:
  "scanDirectory defaultOptions (Unreadable ''missing'') newScanner =
     Returns
      (\<lparr> r_totalFiles = 0, r_totalSize = 0,
         r_stats = \<lparr> directoriesScanned = 0, filesScanned = 0, concurrentOperations = 1,
           maxConcurrent = 1, filesWithHash = 0, duplicateCount = 0, hashErrors = 0 \<rparr> \<rparr>,
       \<lparr> fileMap = [], filesByCreateTime = [], hashMap = [], duplicateFiles = [],
         totalFiles = 0, totalSize = 0,
         stats = \<lparr> directoriesScanned = 0, filesScanned = 0, concurrentOperations = 1,
           maxConcurrent = 1, filesWithHash = 0, duplicateCount = 0, hashErrors = 0 \<rparr>,
         console = [CannotReadDirectory []] \<rparr>)
   \<and> scanDirectory (defaultOptions \<lparr> maxConcurrency := 0 \<rparr>) tree7 newScanner = Pending
   \<and> scanDirectory (defaultOptions \<lparr> batchSize := 0 \<rparr>) tree7 newScanner = Pending"
proof (intro conjI)
  show "scanDirectory (defaultOptions \<lparr> maxConcurrency := 0 \<rparr>) tree7 newScanner = Pending"
    by (simp add: scanDirectory_def scanWithConcurrencyQueue_pending)
  show "scanDirectory (defaultOptions \<lparr> batchSize := 0 \<rparr>) tree7 newScanner = Pending"
    by (simp add: scanDirectory_def scanWithConcurrencyQueue_def processQueue_unfold
          eventLoop_unfold processDirectory_def defaultOptions_def newScanner_def resetStats_def
          tree7_def processFilesInBatches_None)
qed (rule scan_unreadable)

lemma scan_unlistable:
  assumes "0 < maxConcurrency opts" and "\<not> listable rootDir"
  shows "scanDirectory opts rootDir st0 =
     (let st = (resetStats st0)
           \<lparr> stats := zeroStats \<lparr> concurrentOperations := 1, maxConcurrent := 1 \<rparr>,
             console := console st0 @ [CannotReadDirectory []] \<rparr>
      in Returns (getScanResults st, st))"
  using assms
  by (cases rootDir)
     (simp_all add: scanDirectory_def scanWithConcurrencyQueue_def processQueue_unfold
        eventLoop_unfold processDirectory_def resetStats_def zeroStats_def sortFilesByCreateTime_def
        getScanResults_def)


text \<open>
  C2, amended: with \<open>maxConcurrency\<close> and \<open>batchSize\<close> at least 1, every scan returns a
  result, whatever fails below the root or at the root; when the root itself cannot be listed
  the result reports no file and no directory scanned, and one warning for the root is printed.
\<close>

theorem scan_returns_whatever_fails:
  assumes "0 < maxConcurrency opts" and "0 < batchSize opts"
  shows "\<exists>r st. scanDirectory opts rootDir st0 = Returns (r, st)
           \<and> (\<not> listable rootDir \<longrightarrow>
                 r_totalFiles r = 0 \<and> directoriesScanned (r_stats r) = 0
                 \<and> console st = console st0 @ [CannotReadDirectory []])"
proof (cases "listable rootDir")
  case True
  with scanDirectory_returns [OF assms, of rootDir st0] show ?thesis
    by (metis prod.collapse)
next
  case False
  from scan_unlistable [OF assms(1) False, of st0] show ?thesis
    by (simp add: Let_def getScanResults_def resetStats_def zeroStats_def)
qed

theorem scan_returns_whatever_fails_witness:
  "\<exists>r st. scanDirectory defaultOptions (Unreadable ''missing'') newScanner = Returns (r, st)
           \<and> r_totalFiles r = 0 \<and> directoriesScanned (r_stats r) = 0
           \<and> console st = [CannotReadDirectory []]"
  using scan_returns_whatever_fails [of defaultOptions "Unreadable ''missing''" newScanner]
  by (simp add: defaultOptions_def newScanner_def)

section \<open>Warnings\<close>


lemma pendingWarnings_Cons:
  "pendingWarnings opts (t # ts) = taskWarnings opts (fst t) (snd t) @ pendingWarnings opts ts"
  by (simp add: pendingWarnings_def)


















section \<open>The sorted file list\<close>

lemma sorted_treeTies:
  "filesByCreateTime (snd (returned (scanDirectory defaultOptions treeTies newScanner))) =
     [ \<lparr> path = ''c.txt'', fsize = 1, createTime = 1, modifyTime = 1, accessTime = 1 \<rparr>,
       \<lparr> path = ''b.txt'', fsize = 1, createTime = 5, modifyTime = 5, accessTime = 5 \<rparr>,
       \<lparr> path = ''a.txt'', fsize = 1, createTime = 5, modifyTime = 5, accessTime = 5 \<rparr> ]"
  by (simp add: scan_eval treeTies_def)

lemma quick_treeTies:
  "filesByCreateTime (snd (returned
       (scanDirectory (defaultOptions \<lparr> sortAlgorithm := Some ''quick'' \<rparr>) treeTies newScanner))) =
     [ \<lparr> path = ''b.txt'', fsize = 1, createTime = 5, modifyTime = 5, accessTime = 5 \<rparr>,
       \<lparr> path = ''a.txt'', fsize = 1, createTime = 5, modifyTime = 5, accessTime = 5 \<rparr>,
       \<lparr> path = ''c.txt'', fsize = 1, createTime = 1, modifyTime = 1, accessTime = 1 \<rparr> ]"
  by (simp add: scan_eval treeTies_def)


text \<open>
  C4, as stated, fails twice. With the built-in sort, \<^verbatim>\<open>b.txt\<close> stays before \<^verbatim>\<open>a.txt\<close>: the
  comparator looks at the creation time only, and the stable sort keeps files of equal time in
  the order of the file map, not in the order of their paths. Under
  \<^verbatim>\<open>sortAlgorithm: 'quick'\<close> the list is left in the order of the file map, 5, 5, 1.
\<close>

theorem ties_keep_insertion_order:
  "map path (filesByCreateTime (snd (returned (scanDirectory defaultOptions treeTies newScanner))))
     = [''c.txt'', ''b.txt'', ''a.txt'']
   \<and> map createTime (filesByCreateTime
         (snd (returned (scanDirectory defaultOptions treeTies newScanner))))
     = [1, 5, 5]
   \<and> map createTime (filesByCreateTime (snd (returned
         (scanDirectory (defaultOptions \<lparr> sortAlgorithm := Some ''quick'' \<rparr>) treeTies newScanner))))
     = [5, 5, 1]"
  by (simp add: sorted_treeTies quick_treeTies)


text \<open>
  C4, amended: for every scan that returns under the built-in sort, the sorted file list is a
  rearrangement of the file map in non-decreasing creation time; files of equal creation time
  keep the order in which the file map holds them; sorting the list again, or running the sort
  step again, changes nothing.
\<close>

theorem default_sort_by_creation_time:
  assumes "scanDirectory opts rootDir st0 = Returns (r, st)"
    and "sortAlgorithm opts \<noteq> Some ''quick''"
  shows "sorted (map createTime (filesByCreateTime st))
       \<and> mset (filesByCreateTime st) = mset (map snd (fileMap st))
       \<and> filter (\<lambda>file. createTime file = t) (filesByCreateTime st)
           = filter (\<lambda>file. createTime file = t) (map snd (fileMap st))
       \<and> sort_key createTime (filesByCreateTime st) = filesByCreateTime st
       \<and> sortFilesByCreateTime opts st = st"
proof -
  from scanDirectory_sorted [OF assms(1)] assms(2)
  have eq: "filesByCreateTime st = sort_key createTime (map snd (fileMap st))" by simp
  have 1: "sorted (map createTime (filesByCreateTime st))"
    unfolding eq by (rule sorted_sort_key)
  have 2: "mset (filesByCreateTime st) = mset (map snd (fileMap st))"
    unfolding eq by (rule mset_sort)
  have 3: "filter (\<lambda>file. createTime file = t) (filesByCreateTime st)
           = filter (\<lambda>file. createTime file = t) (map snd (fileMap st))"
    unfolding eq by (rule sort_key_stable)
  have 4: "sort_key createTime (filesByCreateTime st) = filesByCreateTime st"
    using 1 by (rule sort_key_id_if_sorted)
  have 5: "sortFilesByCreateTime opts st = st"
    using assms(2) eq by (simp add: sortFilesByCreateTime_def)
  from 1 2 3 4 5 show ?thesis by blast
qed

theorem default_sort_by_creation_time_witness:
  "sorted (map createTime (filesByCreateTime
      (snd (returned (scanDirectory defaultOptions treeTies newScanner)))))
   \<and> map path (filter (\<lambda>file. createTime file = 5) (filesByCreateTime
      (snd (returned (scanDirectory defaultOptions treeTies newScanner)))))
     = [''b.txt'', ''a.txt'']
   \<and> sort_key createTime (filesByCreateTime
      (snd (returned (scanDirectory defaultOptions treeTies newScanner))))
     = filesByCreateTime (snd (returned (scanDirectory defaultOptions treeTies newScanner)))"
proof -
  have run: "scanDirectory defaultOptions treeTies newScanner =
      Returns (fst (returned (scanDirectory defaultOptions treeTies newScanner)),
               snd (returned (scanDirectory defaultOptions treeTies newScanner)))"
    using scanDirectory_returns [of defaultOptions treeTies newScanner]
    by (simp add: defaultOptions_def)
  have q: "sortAlgorithm defaultOptions \<noteq> Some ''quick''" by (simp add: defaultOptions_def)
  have fm: "map snd (fileMap (snd (returned (scanDirectory defaultOptions treeTies newScanner)))) =
     [ \<lparr> path = ''b.txt'', fsize = 1, createTime = 5, modifyTime = 5, accessTime = 5 \<rparr>,
       \<lparr> path = ''a.txt'', fsize = 1, createTime = 5, modifyTime = 5, accessTime = 5 \<rparr>,
       \<lparr> path = ''c.txt'', fsize = 1, createTime = 1, modifyTime = 1, accessTime = 1 \<rparr> ]"
    by (simp add: scan_eval treeTies_def)
  from default_sort_by_creation_time [OF run q, of 5] show ?thesis
    by (simp add: fm)
qed

section \<open>The choice between full and sampled hashing\<close>

lemma checkDuplicateFiles_fields [simp]:
  "fileMap (checkDuplicateFiles p h st) = fileMap st"
  "filesByCreateTime (checkDuplicateFiles p h st) = filesByCreateTime st"
  "hashMap (checkDuplicateFiles p h st) = hashMap st"
  "totalFiles (checkDuplicateFiles p h st) = totalFiles st"
  "totalSize (checkDuplicateFiles p h st) = totalSize st"
  "console (checkDuplicateFiles p h st) = console st"
  by (simp_all add: checkDuplicateFiles_def Let_def)










section \<open>The width of the digests\<close>

lemma md5_empty: "md5 [] = ''d41d8cd98f00b204e9800998ecf8427e''"
  by code_simp

lemma hexDigit_lower: "n < 16 \<Longrightarrow> isLowerHex (hexDigit n)"
  unfolding hexDigit_def isLowerHex_def by (rule nth_mem) simp

lemma toString16_lower: "list_all isLowerHex (toString16 n)"
  by (induction n rule: toString16.induct) (subst toString16.simps, simp add: hexDigit_lower)

lemma toString16_length: "0 < k \<Longrightarrow> n < 16 ^ k \<Longrightarrow> length (toString16 n) \<le> k"
proof (induction k arbitrary: n)
  case 0
  then show ?case by simp
next
  case (Suc k)
  show ?case
  proof (cases "n < 16")
    case True
    then show ?thesis by (subst toString16.simps) simp
  next
    case False
    with Suc.prems have k: "0 < k" by (cases k) auto
    from Suc.prems have "n div 16 < 16 ^ k" by (simp add: less_mult_imp_div_less mult.commute)
    from Suc.IH [OF k this] False show ?thesis by (subst toString16.simps) simp
  qed
qed

lemma hexByte_lower: "list_all isLowerHex (hexByte b)"
proof -
  have "unat b < 2 ^ 8" using unsigned_less [of b, where 'a = nat] by simp
  then have "unat b div 16 < 16" by simp
  then show ?thesis by (simp add: hexByte_def hexDigit_lower)
qed

lemma hexBytes_lower: "list_all isLowerHex (concat (map hexByte xs))"
  by (induction xs) (simp_all add: hexByte_lower)

lemma md5_lower: "list_all isLowerHex (md5 bs)"
proof -
  have "list_all isLowerHex (md5_hex s)" for s
    by (cases s) (simp only: md5_hex.simps hexBytes_lower)
  then show ?thesis by (simp add: md5_def)
qed

lemma padStart_length: "length s \<le> w \<Longrightarrow> length (padStart w c s) = w"
  by (simp add: padStart_def)

lemma fastHash_digits: "length (toString16 (unat (w :: 64 word))) \<le> 16"
proof -
  have "unat w < 2 ^ 64" using unsigned_less [of w, where 'a = nat] by simp
  then have "unat w < 16 ^ 16" by simp
  then show ?thesis by (intro toString16_length) simp_all
qed

lemma fileDigest_md5:
  assumes "fileDigest opts content n = Some d"
  shows "\<exists>bs. d = md5 bs"
  using assms
  by (auto simp: fileDigest_def calculateFullHash_def calculateSampledHash_def split: if_splits)


text \<open>
  C6, as stated, fails for the scanner: \<^verbatim>\<open>_calculateFullHash\<close> returns \<^verbatim>\<open>hash.digest('hex')\<close> of
  MD5, 32 characters; for the empty file it is \<^verbatim>\<open>d41d8cd98f00b204e9800998ecf8427e\<close>.
\<close>

theorem scanner_digest_has_32_characters:
  "calculateFullHash (Some []) = Some ''d41d8cd98f00b204e9800998ecf8427e''
   \<and> length ''d41d8cd98f00b204e9800998ecf8427e'' = 32"
  by (simp add: calculateFullHash_def md5_empty)


text \<open>
  C6, amended: every digest that \<^verbatim>\<open>calculateFastHash\<close> returns has exactly 16 characters, all
  lowercase hexadecimal digits: the digits of the 64-bit value, with zeros in front up to the
  width 16. Every digest of the scanner has exactly 32 lowercase hexadecimal characters.
\<close>

theorem digest_widths:
  "(calculateFastHash f = Some d \<longrightarrow>
      length d = 16 \<and> list_all isLowerHex d
      \<and> (\<exists>s bs. statOf f = Some s \<and> contentOf f = Some bs
            \<and> d = replicate (16 - length (toString16 (unat (fastHashValue (st_size s) bs))))
                     (CHR ''0'')
                   @ toString16 (unat (fastHashValue (st_size s) bs))))
   \<and> (fileDigest opts content n = Some d' \<longrightarrow> length d' = 32 \<and> list_all isLowerHex d')"
proof (intro conjI impI)
  assume a: "calculateFastHash f = Some d"
  then obtain s bs where f: "statOf f = Some s" "contentOf f = Some bs"
    and d: "d = padStart 16 (CHR ''0'') (toString16 (unat (fastHashValue (st_size s) bs)))"
    by (auto simp: calculateFastHash_def split: option.splits if_splits)
  show "length d = 16"
    unfolding d by (rule padStart_length) (rule fastHash_digits)
  show "list_all isLowerHex d"
    unfolding d padStart_def
    by (simp add: toString16_lower) (simp add: list_all_iff isLowerHex_def)
  from f d show "\<exists>s bs. statOf f = Some s \<and> contentOf f = Some bs
            \<and> d = replicate (16 - length (toString16 (unat (fastHashValue (st_size s) bs))))
                     (CHR ''0'')
                   @ toString16 (unat (fastHashValue (st_size s) bs))"
    by (simp add: padStart_def)
next
  assume "fileDigest opts content n = Some d'"
  then obtain bs where "d' = md5 bs" using fileDigest_md5 by blast
  then show "length d' = 32" "list_all isLowerHex d'"
    by (simp_all add: md5_length md5_lower)
qed

lemma toString16_digit: "n < 16 \<Longrightarrow> toString16 n = [hexDigit n]"
  by (subst toString16.simps) simp

lemma toString16_more:
  "\<not> n < 16 \<Longrightarrow> toString16 n = toString16 (n div 16) @ [hexDigit (n mod 16)]"
  by (subst toString16.simps) simp

lemma le_bytes_8:
  "le_bytes 8 n = [of_nat n, of_nat (n div 256), of_nat (n div 256 div 256),
     of_nat (n div 256 div 256 div 256), of_nat (n div 256 div 256 div 256 div 256),
     of_nat (n div 256 div 256 div 256 div 256 div 256),
     of_nat (n div 256 div 256 div 256 div 256 div 256 div 256),
     of_nat (n div 256 div 256 div 256 div 256 div 256 div 256 div 256)]"
proof -
  have "(8::nat) = Suc (Suc (Suc (Suc (Suc (Suc (Suc (Suc 0)))))))" by simp
  then show ?thesis by (simp only: le_bytes.simps)
qed

lemma fastHashValue_paddedFile: "fastHashValue 2 [0xae, 0x99] = 0x00016bc49ccb8fba"
  by (simp add: fastHashValue_def sampleBuffer_def THRESHOLD_def readAt_def fnv1a64_def
        FNV_OFFSET_def FNV_PRIME_def le_bytes_8)

lemma fastHash_paddedFile: "calculateFastHash paddedFile = Some ''00016bc49ccb8fba''"
  by (simp add: calculateFastHash_def paddedFile_def fastHashValue_paddedFile padStart_def
        toString16_digit toString16_more hexDigit_def numeral_3_eq_3)

theorem digest_widths_witness:
  "calculateFastHash paddedFile = Some ''00016bc49ccb8fba''
   \<and> length ''00016bc49ccb8fba'' = 16 \<and> list_all isLowerHex ''00016bc49ccb8fba''
   \<and> fileDigest testOptions (Some []) 0 = Some ''d41d8cd98f00b204e9800998ecf8427e''
   \<and> length ''d41d8cd98f00b204e9800998ecf8427e'' = 32"
proof -
  have 2: "fileDigest testOptions (Some []) 0 = Some ''d41d8cd98f00b204e9800998ecf8427e''"
    by (simp add: fileDigest_def calculateFullHash_def md5_empty)
  from digest_widths [of paddedFile "''00016bc49ccb8fba''" testOptions "Some []" 0
         "''d41d8cd98f00b204e9800998ecf8427e''"] fastHash_paddedFile 2
  show ?thesis by simp
qed

section \<open>Mixing the size into the digest\<close>

subsection \<open>Four bytes of size are told apart by FNV-1a-64\<close>


























subsection \<open>The two digests\<close>











end
